theory Spec2Isabelle
  imports
    Complex_Main
    "HOL-Library.Extended_Nat"
    "HOL-Library.Multiset"
    "HOL-Library.List_Lexorder"
    "HOL-Library.Char_ord"
begin

section \<open>The durable job queue of src/index.js\<close>

text \<open>
  The queue is single-threaded, callback-driven JavaScript. Every asynchronous operation
  (a store write, the peek, a worker invocation, a backoff timer) is modelled by an
  outstanding continuation: the operation is started by adding the continuation to the
  bag \<open>waiting\<close>, and it completes when the environment fires it with its outcome.
  The handlers below are the bodies of the source's callbacks, in the source's order.

  What the model takes from the environment:
  \<^item> a callback is called once per operation (the worker signals success or failure once
    per invocation); the store, the peek and the timers call back later than the call that
    started the operation, the worker later or inside its invocation;
  \<^item> a store operation that fails leaves the store unchanged, and a batch is atomic;
  \<^item> \<open>emit\<close> and the caller's callbacks return normally (an \<open>error\<close> listener is
    registered);
  \<^item> \<open>maxConcurrency\<close> is a natural number or \<open>Infinity\<close>, \<open>maxRetries\<close> a natural
    number; the payloads are the strings that \<open>stringify\<close> produces.
\<close>

subsection \<open>Data\<close>

type_synonym key = string
type_synonym val = string
type_synonym partition = "(key \<times> val) list"

datatype error = Err string | MaxRetriesReached

record backoff_options =
  randomisationFactor :: "real option"
  initialDelay :: "nat option"
  maxDelay :: "nat option"

record options =
  maxConcurrency :: enat
  maxRetries :: nat
  backoff :: backoff_options

text \<open>An options object as the caller writes it: any property may be absent.\<close>

record user_options =
  opt_maxConcurrency :: "enat option"
  opt_maxRetries :: "nat option"
  opt_backoff :: "backoff_options option"

datatype options_arg = OptNumber enat | OptObject user_options | OptUndefined

text \<open>What the queue makes observable: emitted events and calls of the caller's callbacks.\<close>

datatype notification =
    Drain
  | ErrorEvent "error option"
  | PushCallback "error option"
  | BatchPushCallback "error option" "key list"

text \<open>
  The scope of one call of \<open>poke\<close> that found a key: its parameters \<open>err\<close>, \<open>key\<close>,
  \<open>work\<close> and its local \<open>done\<close>.
\<close>

record poke_scope =
  p_err :: "error option"
  p_key :: key
  p_work :: val
  p_done :: bool

text \<open>
  One \<open>errorBackoff\<close> object of \<open>handleRunError\<close>: the number of backoffs done, the
  limit given to \<open>failAfter\<close>, and whether the \<open>once('fail')\<close> listener is still
  registered.
\<close>

record backoff_obj =
  backoffNumber :: nat
  maxNumberOfRetry :: nat
  failListener :: bool

text \<open>
  The outstanding asynchronous operations, each named by the callback it will call.
  The numbers identify the \<open>poke\<close> scope and the backoff object the callback closes over.
\<close>

datatype cont =
    StartDone
  | PushPut key val bool
  | BatchPut "(key \<times> val) list" bool
  | Poke
  | Transfered nat
  | Ran nat
  | RanAgain nat nat
  | DeletedPending nat
  | Ready nat nat

text \<open>
  How the worker replies to an invocation: after the invocation has returned, or inside
  it, with its outcome.
\<close>

datatype reply = Later | Now "error option"

record queue =
  q_options :: options
  work :: partition
  pending :: partition
  concurrency :: int
  starting :: bool
  flushing :: bool
  peeking :: bool
  needsFlush :: bool
  needsDrain :: bool
  scopes :: "poke_scope list"
  backoffs :: "backoff_obj list"
  waiting :: "cont multiset"
  notifications :: "notification list"

subsection \<open>The store\<close>

text \<open>
  The store is outside the repository; its contract is an ordered key-value partition
  with put, delete and an atomic batch. A partition is an association list, the order
  of iteration is the order of the keys (bytewise, as strings).
\<close>

definition store_put :: "key \<Rightarrow> val \<Rightarrow> partition \<Rightarrow> partition" where
  "store_put k v p = (k, v) # filter (\<lambda>e. fst e \<noteq> k) p"

definition store_del :: "key \<Rightarrow> partition \<Rightarrow> partition" where
  "store_del k p = filter (\<lambda>e. fst e \<noteq> k) p"

fun store_put_all :: "(key \<times> val) list \<Rightarrow> partition \<Rightarrow> partition" where
  "store_put_all [] p = p"
| "store_put_all ((k, v) # kvs) p = store_put_all kvs (store_put k v p)"

definition keys :: "partition \<Rightarrow> key set" where
  "keys p = fst ` set p"

text \<open>
  Modelled from the spec: \<open>./peek\<close> is required by src/index.js and is not among the
  sources. The spec (4.5, step 1, and the glossary) says it reads, without removing, the
  single oldest entry of the partition, the one with the smallest key, and reports
  nothing when the partition is empty.
\<close>

fun peek :: "partition \<Rightarrow> (key \<times> val) option" where
  "peek [] = None"
| "peek ((k, v) # p) =
     (case peek p of
        None \<Rightarrow> Some (k, v)
      | Some (k', v') \<Rightarrow> if k \<le> k' then Some (k, v) else Some (k', v'))"

subsection \<open>Options\<close>

definition defaultOptions :: options where
  "defaultOptions =
     \<lparr> maxConcurrency = \<infinity>,
       maxRetries = 10,
       backoff = \<lparr> randomisationFactor = Some 0, initialDelay = Some 10, maxDelay = Some 300 \<rparr> \<rparr>"

text \<open>\<open>xtend(a, b)\<close>: a shallow copy of \<open>a\<close> overwritten by every property of \<open>b\<close>.\<close>

definition xtend :: "options \<Rightarrow> user_options \<Rightarrow> options" where
  "xtend a b =
     \<lparr> maxConcurrency = (case opt_maxConcurrency b of None \<Rightarrow> maxConcurrency a | Some n \<Rightarrow> n),
       maxRetries = (case opt_maxRetries b of None \<Rightarrow> maxRetries a | Some n \<Rightarrow> n),
       backoff = (case opt_backoff b of None \<Rightarrow> backoff a | Some bo \<Rightarrow> bo) \<rparr>"

definition no_options :: user_options where
  "no_options = \<lparr> opt_maxConcurrency = None, opt_maxRetries = None, opt_backoff = None \<rparr>"

text \<open>The first two statements of the constructor \<open>Queue\<close>.\<close>

definition Queue_options :: "options_arg \<Rightarrow> options" where
  "Queue_options a =
     xtend defaultOptions
       (case a of
          OptNumber n \<Rightarrow> no_options \<lparr> opt_maxConcurrency := Some n \<rparr>
        | OptObject u \<Rightarrow> u
        | OptUndefined \<Rightarrow> no_options)"

subsection \<open>The handlers\<close>

text \<open>\<open>q._concurrency < q._options.maxConcurrency\<close>\<close>

definition below_max :: "int \<Rightarrow> enat \<Rightarrow> bool" where
  "below_max c m = (case m of enat n \<Rightarrow> c < int n | \<infinity> \<Rightarrow> True)"

definition at_most_max :: "int \<Rightarrow> enat \<Rightarrow> bool" where
  "at_most_max c m = (case m of enat n \<Rightarrow> c \<le> int n | \<infinity> \<Rightarrow> True)"

definition emit :: "notification \<Rightarrow> queue \<Rightarrow> queue" where
  "emit x q = q \<lparr> notifications := notifications q @ [x] \<rparr>"

definition await :: "cont \<Rightarrow> queue \<Rightarrow> queue" where
  "await c q = q \<lparr> waiting := add_mset c (waiting q) \<rparr>"

definition flush :: "queue \<Rightarrow> queue" where
  "flush q =
     (if below_max (concurrency q) (maxConcurrency (q_options q)) \<and> \<not> peeking q
      then await Poke (q \<lparr> peeking := True, flushing := True \<rparr>)
      else q)"

definition maybeFlush :: "queue \<Rightarrow> queue" where
  "maybeFlush q =
     (if \<not> starting q \<and> \<not> flushing q then flush q else q \<lparr> needsFlush := True \<rparr>)"

text \<open>
  The constructor, on a store that holds the partitions \<open>w\<close> and \<open>p\<close>; its last
  statement is \<open>start(this)\<close>, which pipes the pending partition into the work
  partition and waits for the write stream to close.
\<close>

definition Queue :: "partition \<Rightarrow> partition \<Rightarrow> options_arg \<Rightarrow> queue" where
  "Queue w p a =
     \<lparr> q_options = Queue_options a,
       work = w,
       pending = p,
       concurrency = 0,
       starting = True,
       flushing = False,
       peeking = False,
       needsFlush = False,
       needsDrain = True,
       scopes = [],
       backoffs = [],
       waiting = {#StartDone#},
       notifications = [] \<rparr>"

text \<open>
  \<open>Jobs(db, worker, options)\<close>: its two assertions hold for every store and worker of the
  model, so it is the constructor.
\<close>

definition Jobs :: "partition \<Rightarrow> partition \<Rightarrow> options_arg \<Rightarrow> queue" where
  "Jobs w p a = Queue w p a"

text \<open>\<open>Q.push\<close>; the key is what \<open>timestamp()\<close> returned, the value \<open>stringify(payload)\<close>.\<close>

definition push :: "key \<Rightarrow> val \<Rightarrow> bool \<Rightarrow> queue \<Rightarrow> queue" where
  "push k v cb q = await (PushPut k v cb) (q \<lparr> needsDrain := True \<rparr>)"

definition batchPush :: "(key \<times> val) list \<Rightarrow> bool \<Rightarrow> queue \<Rightarrow> queue" where
  "batchPush kvs cb q = await (BatchPut kvs cb) (q \<lparr> needsDrain := True \<rparr>)"

text \<open>The callback \<open>put\<close> of \<open>push\<close>.\<close>

definition push_put :: "bool \<Rightarrow> error option \<Rightarrow> queue \<Rightarrow> queue" where
  "push_put cb err q =
     maybeFlush
       (if err \<noteq> None then (if cb then emit (PushCallback err) q else emit (ErrorEvent err) q)
        else if cb then emit (PushCallback None) q
        else q)"

text \<open>The callback \<open>put\<close> of \<open>batchPush\<close>.\<close>

definition batchPush_put :: "key list \<Rightarrow> bool \<Rightarrow> error option \<Rightarrow> queue \<Rightarrow> queue" where
  "batchPush_put payloadKeys cb err q =
     maybeFlush
       (if err \<noteq> None then (if cb then emit (BatchPushCallback err []) q else emit (ErrorEvent err) q)
        else if cb then emit (BatchPushCallback None payloadKeys) q
        else q)"

text \<open>The callback \<open>done\<close> of \<open>start\<close>.\<close>

definition start_done :: "queue \<Rightarrow> queue" where
  "start_done q = maybeFlush (q \<lparr> starting := False \<rparr>)"

text \<open>
  \<open>poke(err, key, work)\<close>. A key is a string, and \<open>if (key)\<close> is false for the empty
  string as it is for \<open>undefined\<close>.
\<close>

definition poke :: "error option \<Rightarrow> (key \<times> val) option \<Rightarrow> queue \<Rightarrow> queue" where
  "poke err found q0 =
     (let q = q0 \<lparr> peeking := False \<rparr> in
      case found of
        Some (k, w) \<Rightarrow>
          if k \<noteq> [] then
            await (Transfered (length (scopes q)))
              (q \<lparr> concurrency := concurrency q + 1,
                   scopes := scopes q @ [\<lparr> p_err = err, p_key = k, p_work = w, p_done = False \<rparr>] \<rparr>)
          else
            (let q1 = q \<lparr> flushing := False \<rparr> in
             if needsFlush q1 then maybeFlush (q1 \<lparr> needsFlush := False \<rparr>)
             else if needsDrain q1 then emit Drain (q1 \<lparr> needsDrain := False \<rparr>)
             else q1)
      | None \<Rightarrow>
          (let q1 = q \<lparr> flushing := False \<rparr> in
           if needsFlush q1 then maybeFlush (q1 \<lparr> needsFlush := False \<rparr>)
           else if needsDrain q1 then emit Drain (q1 \<lparr> needsDrain := False \<rparr>)
           else q1))"

text \<open>
  \<open>errorBackoff.backoff()\<close> of the package backoff, which is not part of the repository.
  Its documented contract: when the number of backoffs done equals the limit set by
  \<open>failAfter\<close>, it emits \<open>fail\<close> and resets; otherwise it sets the timer that will emit
  \<open>ready\<close>. The listener of \<open>fail\<close> is registered with \<open>once\<close> and emits the
  error \<open>max retries reached\<close>. The package asks for a positive limit, and the
  statements about retries below are for \<open>maxRetries > 0\<close>. The delays are not modelled.
\<close>

definition backoff_backoff :: "nat \<Rightarrow> nat \<Rightarrow> queue \<Rightarrow> queue" where
  "backoff_backoff i b q =
     (let bo = backoffs q ! b in
      if backoffNumber bo = maxNumberOfRetry bo then
        (let q1 = (if failListener bo then emit (ErrorEvent (Some MaxRetriesReached)) q else q)
         in q1 \<lparr> backoffs := (backoffs q1)[b := bo \<lparr> backoffNumber := 0, failListener := False \<rparr>] \<rparr>)
      else await (Ready i b) q)"

text \<open>\<open>handleRunError(err)\<close> in the scope \<open>i\<close>: a new backoff object, then its first backoff.\<close>

definition handleRunError :: "nat \<Rightarrow> queue \<Rightarrow> queue" where
  "handleRunError i q =
     backoff_backoff i (length (backoffs q))
       (q \<lparr> backoffs := backoffs q @
              [\<lparr> backoffNumber = 0, maxNumberOfRetry = maxRetries (q_options q), failListener = True \<rparr>] \<rparr>)"

text \<open>\<open>ran(err)\<close> in the scope \<open>i\<close>.\<close>

definition ran_cb :: "nat \<Rightarrow> error option \<Rightarrow> queue \<Rightarrow> queue" where
  "ran_cb i err q =
     (if err = None then
        (if \<not> p_done (scopes q ! i) then
           await (DeletedPending i)
             (q \<lparr> scopes := (scopes q)[i := (scopes q ! i) \<lparr> p_done := True \<rparr>],
                  needsDrain := True,
                  concurrency := concurrency q - 1 \<rparr>)
         else q)
      else handleRunError i q)"

text \<open>\<open>ranAgain(err)\<close> of the backoff object \<open>b\<close> in the scope \<open>i\<close>.\<close>

definition ranAgain :: "nat \<Rightarrow> nat \<Rightarrow> error option \<Rightarrow> queue \<Rightarrow> queue" where
  "ranAgain i b err q = (if err \<noteq> None then backoff_backoff i b q else ran_cb i None q)"

text \<open>
  \<open>run(q, work, cb)\<close> calls the worker with the callback \<open>cb\<close>. The worker replies
  either later, after its invocation has returned (the continuation \<open>c\<close> is then
  outstanding), or at once, inside its invocation: then \<open>cb\<close> runs before \<open>run\<close> returns.
\<close>

definition run_worker :: "reply \<Rightarrow> cont \<Rightarrow> (error option \<Rightarrow> queue \<Rightarrow> queue) \<Rightarrow> queue \<Rightarrow> queue" where
  "run_worker r c cb q = (case r of Later \<Rightarrow> await c q | Now err \<Rightarrow> cb err q)"

text \<open>\<open>transfered(err)\<close> in the scope \<open>i\<close>; \<open>r\<close> is how the worker replies.\<close>

definition transfered :: "nat \<Rightarrow> error option \<Rightarrow> reply \<Rightarrow> queue \<Rightarrow> queue" where
  "transfered i err r q =
     flush
       (if err \<noteq> None
        then emit (ErrorEvent err) (q \<lparr> needsDrain := True, concurrency := concurrency q - 1 \<rparr>)
        else run_worker r (Ran i) (ran_cb i) q)"

text \<open>
  The timer of the backoff object \<open>b\<close> fires: the \<open>ready\<close> listener runs the worker
  again with \<open>ranAgain\<close>, and when the listener has returned the number of backoffs is
  incremented. A worker that replies at once makes \<open>ranAgain\<close> run inside the listener,
  before the increment.
\<close>

definition backoff_ready :: "nat \<Rightarrow> nat \<Rightarrow> reply \<Rightarrow> queue \<Rightarrow> queue" where
  "backoff_ready i b r q =
     (let q1 = run_worker r (RanAgain i b) (ranAgain i b) q
      in q1 \<lparr> backoffs := (backoffs q1)[b := (backoffs q1 ! b) \<lparr> backoffNumber := Suc (backoffNumber (backoffs q1 ! b)) \<rparr>] \<rparr>)"

text \<open>
  \<open>deletedPending(_err)\<close> in the scope \<open>i\<close>. The test reads \<open>err\<close>, which in this
  function is the parameter of the enclosing \<open>poke\<close>, not \<open>_err\<close>.
\<close>

definition deletedPending :: "nat \<Rightarrow> error option \<Rightarrow> queue \<Rightarrow> queue" where
  "deletedPending i err' q =
     flush (if p_err (scopes q ! i) \<noteq> None then emit (ErrorEvent err') q else q)"

subsection \<open>Steps\<close>

text \<open>
  What the environment does: it calls \<open>push\<close> or \<open>batchPush\<close>, or it completes an
  outstanding operation with an outcome: \<open>None\<close> for success, or the message of the
  error the store or the worker reports. A store operation takes effect when it completes
  without error, and has no effect when it fails. A worker invoked by the callback of a
  completion replies later, in a completion of its own (\<open>Complete\<close>), or at once:
  \<open>CompleteNow c x\<close> is the successful completion of \<open>c\<close>, the transfer of a job or a
  timer of a backoff, whose callback invokes the worker, with the worker replying \<open>x\<close>
  inside that invocation.
\<close>

datatype event =
    CallPush key val bool
  | CallBatchPush "(key \<times> val) list" bool
  | Complete cont "string option"
  | CompleteNow cont "string option"

fun resume :: "cont \<Rightarrow> error option \<Rightarrow> queue \<Rightarrow> queue" where
  "resume StartDone err q = start_done (q \<lparr> work := store_put_all (pending q) (work q) \<rparr>)"
| "resume (PushPut k v cb) err q =
     push_put cb err (if err = None then q \<lparr> work := store_put k v (work q) \<rparr> else q)"
| "resume (BatchPut kvs cb) err q =
     batchPush_put (map fst kvs) cb err
       (if err = None then q \<lparr> work := store_put_all kvs (work q) \<rparr> else q)"
| "resume Poke err q = poke None (peek (work q)) q"
| "resume (Transfered i) err q =
     transfered i err Later
       (if err = None
        then q \<lparr> work := store_del (p_key (scopes q ! i)) (work q),
                 pending := store_put (p_key (scopes q ! i)) (p_work (scopes q ! i)) (pending q) \<rparr>
        else q)"
| "resume (Ran i) err q = ran_cb i err q"
| "resume (RanAgain i b) err q = ranAgain i b err q"
| "resume (DeletedPending i) err q =
     deletedPending i err
       (if err = None then q \<lparr> pending := store_del (p_key (scopes q ! i)) (pending q) \<rparr> else q)"
| "resume (Ready i b) err q = backoff_ready i b Later q"

text \<open>The continuations whose callback invokes the worker when they complete without error.\<close>

fun invokes_worker :: "cont \<Rightarrow> bool" where
  "invokes_worker (Transfered i) = True"
| "invokes_worker (Ready i b) = True"
| "invokes_worker c = False"

fun resume_now :: "cont \<Rightarrow> error option \<Rightarrow> queue \<Rightarrow> queue" where
  "resume_now (Transfered i) x q =
     transfered i None (Now x)
       (q \<lparr> work := store_del (p_key (scopes q ! i)) (work q),
            pending := store_put (p_key (scopes q ! i)) (p_work (scopes q ! i)) (pending q) \<rparr>)"
| "resume_now (Ready i b) x q = backoff_ready i b (Now x) q"
| "resume_now c x q = q"

fun step :: "event \<Rightarrow> queue \<Rightarrow> queue option" where
  "step (CallPush k v cb) q = Some (push k v cb q)"
| "step (CallBatchPush kvs cb) q = Some (batchPush kvs cb q)"
| "step (Complete c err) q =
     (if c \<in># waiting q
      then Some (resume c (map_option Err err) (q \<lparr> waiting := waiting q - {#c#} \<rparr>))
      else None)"
| "step (CompleteNow c x) q =
     (if c \<in># waiting q \<and> invokes_worker c
      then Some (resume_now c (map_option Err x) (q \<lparr> waiting := waiting q - {#c#} \<rparr>))
      else None)"

fun run :: "event list \<Rightarrow> queue \<Rightarrow> queue option" where
  "run [] q = Some q"
| "run (e # es) q = (case step e q of None \<Rightarrow> None | Some q' \<Rightarrow> run es q')"

subsection \<open>Bookkeeping for the invariants\<close>

text \<open>
  The continuations of a job that has been counted in \<open>concurrency\<close> and can still
  give its slot back: the transfer is in flight, the worker is running, or a retry is
  scheduled.
\<close>

fun holds_slot :: "cont \<Rightarrow> bool" where
  "holds_slot (Transfered i) = True"
| "holds_slot (Ran i) = True"
| "holds_slot (RanAgain i b) = True"
| "holds_slot (Ready i b) = True"
| "holds_slot c = False"

definition slot_count :: "cont multiset \<Rightarrow> int" where
  "slot_count M = int (size (filter_mset holds_slot M))"

text \<open>The backoff objects that have emitted \<open>fail\<close>: their \<open>once\<close> listener is gone.\<close>

definition exhausted :: "backoff_obj list \<Rightarrow> nat" where
  "exhausted bs = length (filter (\<lambda>b. \<not> failListener b) bs)"

definition slots :: "queue \<Rightarrow> int" where
  "slots q = slot_count (waiting q) + int (exhausted (backoffs q))"

definition conc_inv :: "queue \<Rightarrow> bool" where
  "conc_inv q \<longleftrightarrow>
     slots q \<le> concurrency q
   \<and> at_most_max (concurrency q) (maxConcurrency (q_options q))
   \<and> count (waiting q) Poke = (if peeking q then 1 else 0)
   \<and> (peeking q \<longrightarrow> below_max (concurrency q) (maxConcurrency (q_options q)))"

text \<open>
  The scope and the backoff object a continuation closes over, and the invariants that tie
  the outstanding continuations to the scopes: the numbers are in range, every scope has
  at most one outstanding continuation, a scope whose worker has not succeeded yet is not
  \<open>done\<close>, and every scope was entered with no error from the peek.
\<close>

fun scope_of :: "cont \<Rightarrow> nat option" where
  "scope_of (Transfered i) = Some i"
| "scope_of (Ran i) = Some i"
| "scope_of (RanAgain i b) = Some i"
| "scope_of (DeletedPending i) = Some i"
| "scope_of (Ready i b) = Some i"
| "scope_of c = None"

fun ids_ok :: "nat \<Rightarrow> nat \<Rightarrow> cont \<Rightarrow> bool" where
  "ids_ok n m (Transfered i) = (i < n)"
| "ids_ok n m (Ran i) = (i < n)"
| "ids_ok n m (RanAgain i b) = (i < n \<and> b < m)"
| "ids_ok n m (DeletedPending i) = (i < n)"
| "ids_ok n m (Ready i b) = (i < n \<and> b < m)"
| "ids_ok n m c = True"

definition ids_inv :: "queue \<Rightarrow> bool" where
  "ids_inv q \<longleftrightarrow> (\<forall>c \<in># waiting q. ids_ok (length (scopes q)) (length (backoffs q)) c)"

definition scope_count :: "nat \<Rightarrow> cont multiset \<Rightarrow> nat" where
  "scope_count i M = size (filter_mset (\<lambda>c. scope_of c = Some i) M)"

abbreviation of_scope :: "nat \<Rightarrow> cont multiset \<Rightarrow> cont multiset" where
  "of_scope i M \<equiv> filter_mset (\<lambda>c. scope_of c = Some i) M"

definition one_inv :: "queue \<Rightarrow> bool" where
  "one_inv q \<longleftrightarrow> (\<forall>i. scope_count i (waiting q) \<le> 1)"

fun live_ok :: "poke_scope list \<Rightarrow> cont \<Rightarrow> bool" where
  "live_ok ss (Transfered i) = (\<not> p_done (ss ! i))"
| "live_ok ss (Ran i) = (\<not> p_done (ss ! i))"
| "live_ok ss (RanAgain i b) = (\<not> p_done (ss ! i))"
| "live_ok ss (Ready i b) = (\<not> p_done (ss ! i))"
| "live_ok ss c = True"

definition done_inv :: "queue \<Rightarrow> bool" where
  "done_inv q \<longleftrightarrow> (\<forall>c \<in># waiting q. live_ok (scopes q) c)"

definition err_inv :: "queue \<Rightarrow> bool" where
  "err_inv q \<longleftrightarrow> (\<forall>s \<in> set (scopes q). p_err s = None)"

definition scopes_inv :: "queue \<Rightarrow> bool" where
  "scopes_inv q \<longleftrightarrow> ids_inv q \<and> one_inv q \<and> done_inv q \<and> err_inv q"

text \<open>
  While the queue is starting, only the end of the recovery and the writes of pushes are
  outstanding, and nothing has been dispatched; \<open>p\<close> is the pending partition the queue
  was constructed on.
\<close>

fun before_start :: "cont \<Rightarrow> bool" where
  "before_start StartDone = True"
| "before_start (PushPut k v cb) = True"
| "before_start (BatchPut kvs cb) = True"
| "before_start c = False"

definition start_inv :: "partition \<Rightarrow> queue \<Rightarrow> bool" where
  "start_inv p q \<longleftrightarrow>
     (starting q \<longrightarrow>
        StartDone \<in># waiting q \<and> (\<forall>c \<in># waiting q. before_start c)
      \<and> \<not> flushing q \<and> \<not> peeking q \<and> concurrency q = 0 \<and> scopes q = [] \<and> pending q = p)"

text \<open>The keys an event writes into the work partition: those of a push that succeeds.\<close>

fun put_keys :: "event \<Rightarrow> key set" where
  "put_keys (Complete (PushPut k v cb) None) = {k}"
| "put_keys (Complete (BatchPut kvs cb) None) = keys kvs"
| "put_keys e = {}"

text \<open>The recovery completes once: its completion is outstanding exactly while starting.\<close>

definition once_inv :: "queue \<Rightarrow> bool" where
  "once_inv q \<longleftrightarrow> count (waiting q) StartDone = (if starting q then 1 else 0)"

text \<open>
  A run in which no push writes a key that the pending partition holds when the write
  completes.
\<close>

fun fresh :: "event list \<Rightarrow> queue \<Rightarrow> bool" where
  "fresh [] q = True"
| "fresh (e # es) q =
     (put_keys e \<inter> keys (pending q) = {}
      \<and> (case step e q of None \<Rightarrow> True | Some q' \<Rightarrow> fresh es q'))"

text \<open>The events that are calls of the queue's interface, not completions.\<close>

fun is_call :: "event \<Rightarrow> bool" where
  "is_call (CallPush k v cb) = True"
| "is_call (CallBatchPush kvs cb) = True"
| "is_call (Complete c err) = False"
| "is_call (CompleteNow c x) = False"

text \<open>
  What the environment does to one dispatched job, as event lists: \<open>retries\<close> is a sequence
  of \<open>m\<close> retries that fail (the timer fires, the worker reports the error \<open>e\<close>);
  \<open>fails_then_succeeds\<close> is a worker that fails its first \<open>m\<close> invocations and succeeds
  on the next one; \<open>always_fails\<close> is a worker that fails the first invocation and
  \<open>n\<close> retries.
\<close>

fun retries :: "nat \<Rightarrow> nat \<Rightarrow> string \<Rightarrow> nat \<Rightarrow> event list" where
  "retries i b e 0 = []"
| "retries i b e (Suc m) =
     Complete (Ready i b) None # Complete (RanAgain i b) (Some e) # retries i b e m"

definition fails_then_succeeds :: "nat \<Rightarrow> nat \<Rightarrow> string \<Rightarrow> nat \<Rightarrow> event list" where
  "fails_then_succeeds i b e m =
     (case m of
        0 \<Rightarrow> [Complete (Ran i) None]
      | Suc m' \<Rightarrow>
          Complete (Ran i) (Some e) # retries i b e m'
            @ [Complete (Ready i b) None, Complete (RanAgain i b) None])"

definition always_fails :: "nat \<Rightarrow> nat \<Rightarrow> string \<Rightarrow> nat \<Rightarrow> event list" where
  "always_fails i b e n = Complete (Ran i) (Some e) # retries i b e n"

text \<open>The queue with the number of backoffs of the backoff object \<open>b\<close> set to \<open>n\<close>.\<close>

definition set_number :: "nat \<Rightarrow> nat \<Rightarrow> queue \<Rightarrow> queue" where
  "set_number b n q = q \<lparr> backoffs := (backoffs q)[b := (backoffs q ! b) \<lparr> backoffNumber := n \<rparr>] \<rparr>"

text \<open>
  A backoff object that has emitted \<open>fail\<close>, and a scope that is not \<open>done\<close> and has no
  continuation left: none of its callbacks can run again.
\<close>

definition spent :: "nat \<Rightarrow> queue \<Rightarrow> bool" where
  "spent b q \<longleftrightarrow> b < length (backoffs q) \<and> \<not> failListener (backoffs q ! b)"

definition dead :: "nat \<Rightarrow> queue \<Rightarrow> bool" where
  "dead i q \<longleftrightarrow> i < length (scopes q) \<and> scope_count i (waiting q) = 0 \<and> \<not> p_done (scopes q ! i)"

text \<open>
  The job an event belongs to, and the steps of a run that belong to the job with the scope
  \<open>i\<close>, each with the state before it and the state after it. The other events of the run
  may be pushes and the completions of any other job, in any order.
\<close>

fun event_scope :: "event \<Rightarrow> nat option" where
  "event_scope (Complete c x) = scope_of c"
| "event_scope (CompleteNow c x) = scope_of c"
| "event_scope e = None"

fun job_steps :: "nat \<Rightarrow> event list \<Rightarrow> queue \<Rightarrow> (queue \<times> event \<times> queue) list" where
  "job_steps i [] q = []"
| "job_steps i (e # es) q =
     (case step e q of
        None \<Rightarrow> []
      | Some q' \<Rightarrow> (if event_scope e = Some i then [(q, e, q')] else []) @ job_steps i es q')"

text \<open>
  What steps do: the notifications they append, the slots they give back (the decrease of
  the concurrency counter), and what they do to the pending partition: nothing, or nothing
  but the deletion of the key \<open>k\<close> when the deletion that follows the success of the job
  \<open>i\<close> completes without error.
\<close>

definition emitted :: "(queue \<times> event \<times> queue) list \<Rightarrow> notification list" where
  "emitted js = concat (map (\<lambda>(s, e, t). drop (length (notifications s)) (notifications t)) js)"

definition released :: "(queue \<times> event \<times> queue) list \<Rightarrow> int" where
  "released js = sum_list (map (\<lambda>(s, e, t). concurrency s - concurrency t) js)"

definition pending_kept :: "queue \<times> event \<times> queue \<Rightarrow> bool" where
  "pending_kept = (\<lambda>(s, e, t). pending t = pending s)"

definition pending_deleted :: "nat \<Rightarrow> key \<Rightarrow> queue \<times> event \<times> queue \<Rightarrow> bool" where
  "pending_deleted i k =
     (\<lambda>(s, e, t). pending t = (if e = Complete (DeletedPending i) None
                                then store_del k (pending s) else pending s))"

text \<open>
  The replies of the worker to the invocations for the job \<open>i\<close> that the events of a run
  carry, in order: \<open>True\<close> for success, \<open>False\<close> for an error. And the events in which the
  worker does not reply to an invocation for the job \<open>i\<close> inside that invocation.
\<close>

fun reply_of :: "nat \<Rightarrow> event \<Rightarrow> bool list" where
  "reply_of i (Complete (Ran j) x) = (if j = i then [x = None] else [])"
| "reply_of i (Complete (RanAgain j b) x) = (if j = i then [x = None] else [])"
| "reply_of i (CompleteNow c x) = (if scope_of c = Some i then [x = None] else [])"
| "reply_of i e = []"

definition replies :: "nat \<Rightarrow> event list \<Rightarrow> bool list" where
  "replies i es = concat (map (reply_of i) es)"

fun replies_later :: "nat \<Rightarrow> event \<Rightarrow> bool" where
  "replies_later i (CompleteNow c x) = (scope_of c \<noteq> Some i)"
| "replies_later i e = True"

text \<open>The completions of the deletion that follows the success of the job \<open>i\<close>.\<close>

fun deletion_of :: "nat \<Rightarrow> event \<Rightarrow> bool" where
  "deletion_of i (Complete (DeletedPending j) x) = (j = i)"
| "deletion_of i e = False"

text \<open>
  A job whose worker has succeeded: its scope is \<open>done\<close> and the only continuation it can
  have is the deletion of its entry from the pending partition.
\<close>

definition succeeded :: "nat \<Rightarrow> queue \<Rightarrow> bool" where
  "succeeded i q \<longleftrightarrow>
     i < length (scopes q) \<and> p_done (scopes q ! i)
   \<and> (\<forall>c \<in># waiting q. scope_of c = Some i \<longrightarrow> c = DeletedPending i)"

text \<open>
  The backoff object a continuation closes over; every backoff object has at most one
  outstanding continuation. And a job that is being run: it has failed \<open>f\<close> times, the
  limit of its backoff object is \<open>n\<close>, and either its first invocation is running, or a
  retry is scheduled, or a retry is running.
\<close>

fun backoff_of :: "cont \<Rightarrow> nat option" where
  "backoff_of (RanAgain i b) = Some b"
| "backoff_of (Ready i b) = Some b"
| "backoff_of c = None"

definition backoff_count :: "nat \<Rightarrow> cont multiset \<Rightarrow> nat" where
  "backoff_count b M = size (filter_mset (\<lambda>c. backoff_of c = Some b) M)"

definition backoff_inv :: "queue \<Rightarrow> bool" where
  "backoff_inv q \<longleftrightarrow> (\<forall>b. backoff_count b (waiting q) \<le> 1)"

definition retrying :: "nat \<Rightarrow> nat \<Rightarrow> nat \<Rightarrow> nat \<Rightarrow> queue \<Rightarrow> bool" where
  "retrying i n f b q \<longleftrightarrow>
     b < length (backoffs q) \<and> maxNumberOfRetry (backoffs q ! b) = n
   \<and> failListener (backoffs q ! b) \<and> 0 < f \<and> f \<le> n
   \<and> ((Ready i b \<in># waiting q \<and> f = Suc (backoffNumber (backoffs q ! b)))
      \<or> (RanAgain i b \<in># waiting q \<and> f = backoffNumber (backoffs q ! b)))"

definition in_phase :: "nat \<Rightarrow> nat \<Rightarrow> nat \<Rightarrow> queue \<Rightarrow> bool" where
  "in_phase i n f q \<longleftrightarrow>
     i < length (scopes q) \<and> \<not> p_done (scopes q ! i)
   \<and> ((f = 0 \<and> Ran i \<in># waiting q) \<or> (\<exists>b. retrying i n f b q))"

text \<open>
  Runs in which every operation succeeds. \<open>forced P cs q\<close> says that from \<open>q\<close> exactly one
  continuation is outstanding at any time, that these continuations are \<open>cs\<close> in this
  order, that nothing is outstanding after them, and that \<open>P\<close> holds in every state on the
  way.
\<close>

fun succeeds :: "event \<Rightarrow> bool" where
  "succeeds (Complete c None) = True"
| "succeeds e = False"

fun forced :: "(queue \<Rightarrow> bool) \<Rightarrow> cont list \<Rightarrow> queue \<Rightarrow> bool" where
  "forced P [] q = (P q \<and> waiting q = {#})"
| "forced P (c # cs) q =
     (P q \<and> waiting q = {#c#} \<and> forced P cs (resume c None (q \<lparr> waiting := {#} \<rparr>)))"

text \<open>The continuations of a queue with \<open>maxConcurrency = 1\<close> that dispatches three jobs.\<close>

definition three_jobs :: "cont list" where
  "three_jobs =
     [StartDone,
      Poke, Transfered 0, Ran 0, DeletedPending 0,
      Poke, Transfered 1, Ran 1, DeletedPending 1,
      Poke, Transfered 2, Ran 2, DeletedPending 2,
      Poke]"

section \<open>Properties\<close>

text \<open>The equations that evaluate a run on a concrete queue.\<close>

lemmas eval_defs = Queue_def Queue_options_def xtend_def defaultOptions_def no_options_def
  start_done_def maybeFlush_def flush_def below_max_def at_most_max_def await_def emit_def poke_def
  transfered_def ran_cb_def ranAgain_def handleRunError_def backoff_backoff_def backoff_ready_def
  run_worker_def deletedPending_def push_def batchPush_def push_put_def batchPush_put_def
  store_put_def store_del_def one_enat_def

subsection \<open>Options\<close>

text \<open>
  C9. When the options argument of the constructor is a number \<open>n\<close>, the queue's options
  are \<open>maxConcurrency = n\<close> and the defaults for everything else: \<open>maxRetries = 10\<close>,
  \<open>backoff.randomisationFactor = 0\<close>, \<open>backoff.initialDelay = 10\<close> and
  \<open>backoff.maxDelay = 300\<close>.
\<close>

theorem number_option_is_maxConcurrency:
  "q_options (Queue w p (OptNumber n)) =
     \<lparr> maxConcurrency = n,
       maxRetries = 10,
       backoff = \<lparr> randomisationFactor = Some 0, initialDelay = Some 10, maxDelay = Some 300 \<rparr> \<rparr>"
  by (simp add: Queue_def Queue_options_def xtend_def defaultOptions_def no_options_def)

subsection \<open>The options never change\<close>

lemma q_options_flush [simp]: "q_options (flush q) = q_options q"
  by (simp add: flush_def await_def)

lemma q_options_maybeFlush [simp]: "q_options (maybeFlush q) = q_options q"
  by (simp add: maybeFlush_def)

lemma q_options_backoff_backoff [simp]: "q_options (backoff_backoff i b q) = q_options q"
  by (simp add: backoff_backoff_def Let_def emit_def await_def)

lemma q_options_ran_cb [simp]: "q_options (ran_cb i err q) = q_options q"
  by (simp add: ran_cb_def handleRunError_def await_def)

lemma q_options_poke [simp]: "q_options (poke err found q) = q_options q"
  by (simp add: poke_def Let_def emit_def await_def split: option.splits)

lemma q_options_ranAgain [simp]: "q_options (ranAgain i b err q) = q_options q"
  by (simp add: ranAgain_def)

lemma q_options_transfered [simp]: "q_options (transfered i err r q) = q_options q"
  by (simp add: transfered_def run_worker_def emit_def await_def split: reply.splits)

lemma q_options_backoff_ready [simp]: "q_options (backoff_ready i b r q) = q_options q"
  by (simp add: backoff_ready_def run_worker_def Let_def await_def split: reply.splits)

lemma q_options_resume [simp]: "q_options (resume c err q) = q_options q"
  by (cases c)
     (simp_all add: start_done_def push_put_def batchPush_put_def
        deletedPending_def Let_def emit_def await_def)

lemma q_options_resume_now [simp]: "q_options (resume_now c x q) = q_options q"
  by (cases c) simp_all

lemma q_options_step: "step e q = Some q' \<Longrightarrow> q_options q' = q_options q"
  by (cases e) (auto simp: push_def batchPush_def await_def split: if_splits)

lemma q_options_run: "run es q = Some q' \<Longrightarrow> q_options q' = q_options q"
  by (induction es arbitrary: q) (auto split: option.splits dest: q_options_step)

subsection \<open>The concurrency counter\<close>

lemma slot_count_add: "slot_count (add_mset c M) = slot_count M + (if holds_slot c then 1 else 0)"
  by (simp add: slot_count_def)

lemma slot_count_remove:
  "c \<in># M \<Longrightarrow> slot_count (M - {#c#}) = slot_count M - (if holds_slot c then 1 else 0)"
  using slot_count_add[of c "M - {#c#}"] by simp

lemma slot_count_nonneg: "0 \<le> slot_count M"
  by (simp add: slot_count_def)

lemma below_at_most: "below_max c m \<Longrightarrow> at_most_max (c + 1) m"
  by (cases m) (auto simp: below_max_def at_most_max_def)

lemma exhausted_update_Suc: "exhausted (bs[b := x]) \<le> Suc (exhausted bs)"
  unfolding exhausted_def
  by (induction bs arbitrary: b) (auto split: nat.splits)

lemma exhausted_update: "int (exhausted (bs[b := x])) \<le> int (exhausted bs) + 1"
  using exhausted_update_Suc[of bs b x] by simp

lemma exhausted_update_number:
  "exhausted (bs[b := (bs ! b) \<lparr> backoffNumber := n \<rparr>]) = exhausted bs"
  unfolding exhausted_def
  by (induction bs arbitrary: b) (auto split: nat.splits)

lemma exhausted_append: "exhausted (bs @ [x]) = exhausted bs + (if failListener x then 0 else 1)"
  by (simp add: exhausted_def)

lemma conc_inv_flush: "conc_inv q \<Longrightarrow> conc_inv (flush q)"
  by (auto simp: conc_inv_def flush_def await_def slots_def slot_count_add)

lemma conc_inv_maybeFlush: "conc_inv q \<Longrightarrow> conc_inv (maybeFlush q)"
  using conc_inv_flush by (auto simp: maybeFlush_def) (auto simp: conc_inv_def slots_def)

lemma conc_inv_init: "conc_inv (Queue w p a)"
  by (simp add: conc_inv_def Queue_def slots_def slot_count_def exhausted_def at_most_max_def
           split: enat.splits)

lemma conc_inv_backoff_backoff:
  assumes "slots q + 1 \<le> concurrency q"
    "at_most_max (concurrency q) (maxConcurrency (q_options q))"
    "count (waiting q) Poke = (if peeking q then 1 else 0)"
    "peeking q \<longrightarrow> below_max (concurrency q) (maxConcurrency (q_options q))"
  shows "conc_inv (backoff_backoff i b q)"
  using assms
    exhausted_update[of "backoffs q" b
      "(backoffs q ! b) \<lparr>backoffNumber := 0, failListener := False\<rparr>"]
  by (auto simp: conc_inv_def backoff_backoff_def Let_def emit_def await_def slots_def slot_count_add)

lemma conc_inv_ran_cb:
  assumes "slots q + 1 \<le> concurrency q"
    "at_most_max (concurrency q) (maxConcurrency (q_options q))"
    "count (waiting q) Poke = (if peeking q then 1 else 0)"
    "peeking q \<longrightarrow> below_max (concurrency q) (maxConcurrency (q_options q))"
  shows "conc_inv (ran_cb i err q)"
  using assms
  by (auto simp: ran_cb_def handleRunError_def await_def exhausted_append
           intro!: conc_inv_backoff_backoff)
     (auto simp: conc_inv_def slots_def slot_count_add at_most_max_def
           below_max_def exhausted_append split: if_splits enat.splits)

lemma conc_inv_ranAgain:
  assumes "slots q + 1 \<le> concurrency q"
    "at_most_max (concurrency q) (maxConcurrency (q_options q))"
    "count (waiting q) Poke = (if peeking q then 1 else 0)"
    "peeking q \<longrightarrow> below_max (concurrency q) (maxConcurrency (q_options q))"
  shows "conc_inv (ranAgain i b err q)"
  using assms conc_inv_ran_cb[of q i None] conc_inv_backoff_backoff[of q i b]
  by (simp add: ranAgain_def)

lemma conc_inv_number:
  "conc_inv q \<Longrightarrow>
   conc_inv (q \<lparr> backoffs := (backoffs q)[b := (backoffs q ! b) \<lparr> backoffNumber := n \<rparr>] \<rparr>)"
  by (simp add: conc_inv_def slots_def exhausted_update_number)

lemma conc_inv_remove_slot:
  assumes "conc_inv q" "c \<in># waiting q" "holds_slot c" "c \<noteq> Poke"
  shows "slots (q \<lparr> waiting := waiting q - {#c#} \<rparr>) + 1 \<le> concurrency q"
    "at_most_max (concurrency q) (maxConcurrency (q_options q))"
    "count (waiting q - {#c#}) Poke = (if peeking q then 1 else 0)"
    "peeking q \<longrightarrow> below_max (concurrency q) (maxConcurrency (q_options q))"
  using assms by (auto simp: conc_inv_def slots_def slot_count_remove)

lemma conc_inv_transfered_now:
  assumes "conc_inv q" "Transfered i \<in># waiting q"
  shows "conc_inv (transfered i None (Now x) (q \<lparr> waiting := waiting q - {#Transfered i#}, work := w, pending := p \<rparr>))"
  using conc_inv_remove_slot[OF assms]
  by (auto simp: transfered_def run_worker_def intro!: conc_inv_flush conc_inv_ran_cb)
     (auto simp: slots_def)

lemma conc_inv_backoff_ready_now:
  assumes "conc_inv q" "Ready i b \<in># waiting q"
  shows "conc_inv (backoff_ready i b (Now x) (q \<lparr> waiting := waiting q - {#Ready i b#} \<rparr>))"
  using conc_inv_remove_slot[OF assms]
  by (auto simp: backoff_ready_def run_worker_def Let_def intro!: conc_inv_number conc_inv_ranAgain)

lemma conc_inv_resume_now:
  assumes "conc_inv q" "c \<in># waiting q" "invokes_worker c"
  shows "conc_inv (resume_now c x (q \<lparr> waiting := waiting q - {#c#} \<rparr>))"
proof (cases c)
  case (Transfered i)
  show ?thesis
    using conc_inv_transfered_now[OF assms(1) assms(2)[unfolded Transfered]] unfolding Transfered
    by simp
next
  case (Ready i b)
  show ?thesis
    using conc_inv_backoff_ready_now[OF assms(1) assms(2)[unfolded Ready]] unfolding Ready
    by simp
qed (use assms in simp_all)

lemma conc_inv_resume:
  assumes "conc_inv q" "c \<in># waiting q"
  shows "conc_inv (resume c err (q \<lparr> waiting := waiting q - {#c#} \<rparr>))"
proof (cases c)
  case StartDone
  then show ?thesis using assms
    by (auto simp: start_done_def intro!: conc_inv_maybeFlush)
       (auto simp: conc_inv_def slots_def slot_count_remove)
next
  case (PushPut k v cb)
  then show ?thesis using assms
    by (auto simp: push_put_def emit_def intro!: conc_inv_maybeFlush)
       (auto simp: conc_inv_def slots_def slot_count_remove)
next
  case (BatchPut kvs cb)
  then show ?thesis using assms
    by (auto simp: batchPush_put_def emit_def intro!: conc_inv_maybeFlush)
       (auto simp: conc_inv_def slots_def slot_count_remove)
next
  case Poke
  with assms have pk: "peeking q" "count (waiting q) Poke = 1"
    by (auto simp: conc_inv_def count_eq_zero_iff split: if_splits)
  show ?thesis using assms pk unfolding Poke
    by (auto simp: poke_def Let_def emit_def await_def split: option.splits
             intro!: conc_inv_maybeFlush)
       (auto simp: conc_inv_def slots_def slot_count_add slot_count_remove below_at_most
             split: if_splits)
next
  case (Transfered i)
  show ?thesis using assms unfolding Transfered
    by (auto simp: transfered_def run_worker_def emit_def await_def intro!: conc_inv_flush)
       (auto simp: conc_inv_def slots_def slot_count_add slot_count_remove at_most_max_def
             below_max_def split: if_splits enat.splits)
next
  case (Ran i)
  show ?thesis using assms unfolding Ran
    by (auto simp: ran_cb_def handleRunError_def await_def exhausted_append
             intro!: conc_inv_backoff_backoff)
       (auto simp: conc_inv_def slots_def slot_count_add slot_count_remove at_most_max_def
             below_max_def exhausted_append split: if_splits enat.splits)
next
  case (RanAgain i b)
  show ?thesis using assms unfolding RanAgain
    by (auto simp: ranAgain_def ran_cb_def await_def intro!: conc_inv_backoff_backoff)
       (auto simp: conc_inv_def slots_def slot_count_add slot_count_remove at_most_max_def
             below_max_def split: if_splits enat.splits)
next
  case (DeletedPending i)
  show ?thesis using assms unfolding DeletedPending
    by (auto simp: deletedPending_def emit_def intro!: conc_inv_flush)
       (auto simp: conc_inv_def slots_def slot_count_add slot_count_remove split: if_splits)
next
  case (Ready i b)
  show ?thesis using assms unfolding Ready
    by (auto simp: backoff_ready_def run_worker_def Let_def await_def conc_inv_def slots_def
          slot_count_add slot_count_remove exhausted_update_number split: if_splits)
qed

lemma conc_inv_step: "conc_inv q \<Longrightarrow> step e q = Some q' \<Longrightarrow> conc_inv q'"
proof (cases e)
  case (Complete c err)
  assume "conc_inv q" "step e q = Some q'"
  then show ?thesis using conc_inv_resume[of q c "map_option Err err"] unfolding Complete
    by (auto split: if_splits)
next
  case (CompleteNow c x)
  assume "conc_inv q" "step e q = Some q'"
  then show ?thesis using conc_inv_resume_now[of q c "map_option Err x"] unfolding CompleteNow
    by (auto split: if_splits)
qed (auto simp: push_def batchPush_def await_def conc_inv_def slots_def slot_count_add)

lemma conc_inv_run: "conc_inv q \<Longrightarrow> run es q = Some q' \<Longrightarrow> conc_inv q'"
  by (induction es arbitrary: q) (auto split: option.splits dest: conc_inv_step)

text \<open>
  C5. In every state the queue reaches from its construction, by any sequence of pushes and
  of completions of store operations, worker invocations and timers, with any outcomes,
  the concurrency counter is at least the number of dispatched jobs still outstanding, so
  it is never negative, and it is at most \<open>maxConcurrency\<close>.
\<close>

theorem concurrency_bounded:
  assumes "run es (Queue w p a) = Some q"
  shows "0 \<le> concurrency q
       \<and> slot_count (waiting q) \<le> concurrency q
       \<and> at_most_max (concurrency q) (maxConcurrency (Queue_options a))"
proof -
  have inv: "conc_inv q"
    using conc_inv_run[OF conc_inv_init assms] .
  have opts: "q_options q = Queue_options a"
    using q_options_run[OF assms] by (simp add: Queue_def)
  have "slot_count (waiting q) \<le> concurrency q"
    using inv by (simp add: conc_inv_def slots_def)
  moreover have "0 \<le> slot_count (waiting q)"
    by (rule slot_count_nonneg)
  ultimately show ?thesis
    using inv opts by (simp add: conc_inv_def)
qed

text \<open>
  An instance: a store with one job left in the pending partition by a crash, a queue with
  \<open>maxConcurrency = 1\<close>, a push during recovery, and a worker that fails on the
  recovered job. One job is outstanding and the counter is 1.
\<close>

theorem concurrency_bounded_witness:
  "\<exists>q. run [CallPush ''2'' ''b'' False, Complete StartDone None,
             Complete (PushPut ''2'' ''b'' False) None, Complete Poke None,
             Complete (Transfered 0) None, Complete (Ran 0) (Some ''boom'')]
          (Queue [] [(''1'', ''a'')] (OptNumber 1)) = Some q
     \<and> concurrency q = 1 \<and> slot_count (waiting q) = 1 \<and> 0 \<le> concurrency q
     \<and> slot_count (waiting q) \<le> concurrency q
     \<and> at_most_max (concurrency q) (maxConcurrency (Queue_options (OptNumber 1)))"
proof -
  have "\<exists>q. run [CallPush ''2'' ''b'' False, Complete StartDone None,
             Complete (PushPut ''2'' ''b'' False) None, Complete Poke None,
             Complete (Transfered 0) None, Complete (Ran 0) (Some ''boom'')]
          (Queue [] [(''1'', ''a'')] (OptNumber 1)) = Some q
     \<and> concurrency q = 1 \<and> slot_count (waiting q) = 1"
    by (simp add: eval_defs slot_count_def)
  then obtain q where
    r: "run [CallPush ''2'' ''b'' False, Complete StartDone None,
             Complete (PushPut ''2'' ''b'' False) None, Complete Poke None,
             Complete (Transfered 0) None, Complete (Ran 0) (Some ''boom'')]
          (Queue [] [(''1'', ''a'')] (OptNumber 1)) = Some q"
    and v: "concurrency q = 1" "slot_count (waiting q) = 1"
    by blast
  from concurrency_bounded[OF r] r v show ?thesis by blast
qed

subsection \<open>Scopes and continuations\<close>

lemma ids_ok_mono: "ids_ok n m c \<Longrightarrow> n \<le> n' \<Longrightarrow> m \<le> m' \<Longrightarrow> ids_ok n' m' c"
  by (cases c) auto

lemma ids_ok_Suc: "ids_ok n m c \<Longrightarrow> ids_ok (Suc n) m c" "ids_ok n m c \<Longrightarrow> ids_ok n (Suc m) c"
  by (cases c; simp)+

lemma ids_inv_flush: "ids_inv q \<Longrightarrow> ids_inv (flush q)"
  by (auto simp: ids_inv_def flush_def await_def)

lemma ids_inv_maybeFlush: "ids_inv q \<Longrightarrow> ids_inv (maybeFlush q)"
  using ids_inv_flush by (auto simp: maybeFlush_def) (auto simp: ids_inv_def)

lemma ids_inv_init: "ids_inv (Queue w p a)"
  by (simp add: ids_inv_def Queue_def)

lemma ids_inv_remove: "ids_inv q \<Longrightarrow> ids_inv (q \<lparr> waiting := waiting q - {#c#} \<rparr>)"
  by (auto simp: ids_inv_def dest: in_diffD)

lemma ids_inv_backoff_backoff:
  "ids_inv q \<Longrightarrow> i < length (scopes q) \<Longrightarrow> b < length (backoffs q) \<Longrightarrow> ids_inv (backoff_backoff i b q)"
  by (auto simp: ids_inv_def backoff_backoff_def Let_def emit_def await_def)

lemma ids_inv_ran_cb: "ids_inv q \<Longrightarrow> i < length (scopes q) \<Longrightarrow> ids_inv (ran_cb i err q)"
  by (auto simp: ran_cb_def handleRunError_def await_def intro!: ids_inv_backoff_backoff)
     (auto simp: ids_inv_def intro: ids_ok_Suc)

lemma ids_inv_ranAgain:
  "ids_inv q \<Longrightarrow> i < length (scopes q) \<Longrightarrow> b < length (backoffs q) \<Longrightarrow> ids_inv (ranAgain i b err q)"
  by (simp add: ranAgain_def ids_inv_ran_cb ids_inv_backoff_backoff)

lemma ids_inv_number: "ids_inv q \<Longrightarrow> ids_inv (q \<lparr> backoffs := (backoffs q)[b := x] \<rparr>)"
  by (simp add: ids_inv_def)

lemma ids_inv_store: "ids_inv (q \<lparr> work := w, pending := p \<rparr>) = ids_inv q"
  by (simp add: ids_inv_def)

lemma ids_inv_resume_now:
  assumes "ids_inv q" "c \<in># waiting q"
  shows "ids_inv (resume_now c x (q \<lparr> waiting := waiting q - {#c#} \<rparr>))"
proof -
  have c: "ids_ok (length (scopes q)) (length (backoffs q)) c"
    using assms by (simp add: ids_inv_def)
  have r: "ids_inv (q \<lparr> waiting := waiting q - {#c#} \<rparr>)"
    using assms(1) by (rule ids_inv_remove)
  show ?thesis
  proof (cases c)
    case (Transfered i)
    then show ?thesis using r c
      by (auto simp: transfered_def run_worker_def intro!: ids_inv_flush ids_inv_ran_cb)
         (auto simp: ids_inv_def)
  next
    case (Ready i b)
    then show ?thesis using r c
      by (auto simp: backoff_ready_def run_worker_def Let_def
               intro!: ids_inv_number ids_inv_ranAgain)
  qed (use r in simp_all)
qed

lemma ids_inv_resume:
  assumes "ids_inv q" "c \<in># waiting q"
  shows "ids_inv (resume c err (q \<lparr> waiting := waiting q - {#c#} \<rparr>))"
proof -
  have c: "ids_ok (length (scopes q)) (length (backoffs q)) c"
    using assms by (simp add: ids_inv_def)
  have r: "ids_inv (q \<lparr> waiting := waiting q - {#c#} \<rparr>)"
    using assms(1) by (rule ids_inv_remove)
  show ?thesis
  proof (cases c)
    case StartDone
    then show ?thesis using r
      by (auto simp: start_done_def intro!: ids_inv_maybeFlush) (auto simp: ids_inv_def)
  next
    case (PushPut k v cb)
    then show ?thesis using r
      by (auto simp: push_put_def emit_def intro!: ids_inv_maybeFlush) (auto simp: ids_inv_def)
  next
    case (BatchPut kvs cb)
    then show ?thesis using r
      by (auto simp: batchPush_put_def emit_def intro!: ids_inv_maybeFlush) (auto simp: ids_inv_def)
  next
    case Poke
    then show ?thesis using r
      by (auto simp: poke_def Let_def emit_def await_def split: option.splits intro!: ids_inv_maybeFlush)
         (auto simp: ids_inv_def intro: ids_ok_Suc)
  next
    case (Transfered i)
    then show ?thesis using r c
      by (auto simp: transfered_def run_worker_def emit_def await_def intro!: ids_inv_flush)
         (auto simp: ids_inv_def)
  next
    case (Ran i)
    then show ?thesis using r c
      by (auto simp: ran_cb_def handleRunError_def await_def intro!: ids_inv_backoff_backoff)
         (auto simp: ids_inv_def intro: ids_ok_Suc)
  next
    case (RanAgain i b)
    then show ?thesis using r c
      by (auto simp: ranAgain_def ran_cb_def await_def intro!: ids_inv_backoff_backoff)
         (auto simp: ids_inv_def)
  next
    case (DeletedPending i)
    then show ?thesis using r c
      by (auto simp: deletedPending_def emit_def intro!: ids_inv_flush)
         (auto simp: ids_inv_def)
  next
    case (Ready i b)
    then show ?thesis using r c
      by (auto simp: backoff_ready_def run_worker_def Let_def await_def ids_inv_def)
  qed
qed

lemma scope_count_add:
  "scope_count i (add_mset c M) = scope_count i M + (if scope_of c = Some i then 1 else 0)"
  by (simp add: scope_count_def)

lemma scope_count_remove:
  "c \<in># M \<Longrightarrow> scope_count i (M - {#c#}) = scope_count i M - (if scope_of c = Some i then 1 else 0)"
  using scope_count_add[of i c "M - {#c#}"] by simp

lemma scope_count_pos: "c \<in># M \<Longrightarrow> scope_of c = Some i \<Longrightarrow> 1 \<le> scope_count i M"
  using scope_count_add[of i c "M - {#c#}"] by simp

lemma scope_count_fresh:
  assumes "\<forall>c \<in># M. ids_ok n m c" shows "scope_count n M = 0"
proof -
  have "scope_of c \<noteq> Some n" if "c \<in># M" for c
    using assms that by (cases c) auto
  then show ?thesis
    by (auto simp: scope_count_def)
qed

lemma one_inv_others:
  assumes "one_inv q" "c \<in># waiting q" "scope_of c = Some i" "c' \<in># waiting q - {#c#}"
  shows "scope_of c' \<noteq> Some i"
proof
  assume "scope_of c' = Some i"
  then have "1 \<le> scope_count i (waiting q - {#c#})"
    using assms(4) by (rule scope_count_pos[rotated])
  moreover have "scope_count i (waiting q - {#c#}) = scope_count i (waiting q) - 1"
    using scope_count_remove[OF assms(2), of i] assms(3) by simp
  moreover have "scope_count i (waiting q) \<le> 1"
    using assms(1) by (simp add: one_inv_def)
  ultimately show False by simp
qed

lemma one_inv_unique:
  assumes "one_inv q" "c \<in># waiting q" "c' \<in># waiting q"
    "scope_of c = Some i" "scope_of c' = Some i"
  shows "c' = c"
proof (rule ccontr)
  assume "c' \<noteq> c"
  then have "c' \<in># waiting q - {#c#}"
    using assms(3) by (simp add: in_diff_count)
  then show False
    using one_inv_others[OF assms(1,2,4)] assms(5) by blast
qed

lemma one_inv_flush: "one_inv q \<Longrightarrow> one_inv (flush q)"
  by (auto simp: one_inv_def flush_def await_def scope_count_add)

lemma one_inv_maybeFlush: "one_inv q \<Longrightarrow> one_inv (maybeFlush q)"
  using one_inv_flush by (auto simp: maybeFlush_def) (auto simp: one_inv_def)

lemma one_inv_init: "one_inv (Queue w p a)"
  by (simp add: one_inv_def Queue_def scope_count_def)

lemma one_inv_backoff_backoff:
  assumes "one_inv q" "scope_count i (waiting q) = 0"
  shows "one_inv (backoff_backoff i b q)"
  using assms
  by (auto simp: one_inv_def backoff_backoff_def Let_def emit_def await_def scope_count_add)

lemma one_inv_taken:
  assumes "one_inv q" "c \<in># waiting q" "scope_of c = Some i"
  shows "scope_count i (waiting q - {#c#}) = 0"
proof -
  have "scope_count i (waiting q) \<le> 1"
    using assms(1) by (simp add: one_inv_def)
  then show ?thesis
    using scope_count_remove[OF assms(2), of i] assms(3) by simp
qed

lemma one_inv_ran_cb:
  assumes "one_inv q" "scope_count i (waiting q) = 0"
  shows "one_inv (ran_cb i err q)"
  using assms
  by (auto simp: ran_cb_def handleRunError_def await_def intro!: one_inv_backoff_backoff)
     (auto simp: one_inv_def scope_count_add)

lemma one_inv_ranAgain:
  assumes "one_inv q" "scope_count i (waiting q) = 0"
  shows "one_inv (ranAgain i b err q)"
  using assms by (simp add: ranAgain_def one_inv_ran_cb one_inv_backoff_backoff)

lemma one_inv_number: "one_inv q \<Longrightarrow> one_inv (q \<lparr> backoffs := bs \<rparr>)"
  by (simp add: one_inv_def)

lemma one_inv_resume_now:
  assumes "one_inv q" "c \<in># waiting q"
  shows "one_inv (resume_now c x (q \<lparr> waiting := waiting q - {#c#} \<rparr>))"
proof -
  have r: "\<And>j. scope_count j (waiting q - {#c#}) \<le> 1"
    using assms(1,2) scope_count_remove[OF assms(2)]
    by (auto simp: one_inv_def intro: le_trans[OF diff_le_self])
  have r': "one_inv (q \<lparr> waiting := waiting q - {#c#} \<rparr>)"
    using r by (simp add: one_inv_def)
  have t: "\<And>i. scope_of c = Some i \<Longrightarrow> scope_count i (waiting q - {#c#}) = 0"
    using one_inv_taken[OF assms(1,2)] by blast
  show ?thesis
  proof (cases c)
    case (Transfered i)
    then show ?thesis using r' t[of i]
      by (auto simp: transfered_def run_worker_def intro!: one_inv_flush one_inv_ran_cb)
         (auto simp: one_inv_def)
  next
    case (Ready i b)
    then show ?thesis using r' t[of i]
      by (auto simp: backoff_ready_def run_worker_def Let_def
               intro!: one_inv_number one_inv_ranAgain)
  qed (use r' in simp_all)
qed

lemma one_inv_resume:
  assumes "one_inv q" "ids_inv q" "c \<in># waiting q"
  shows "one_inv (resume c err (q \<lparr> waiting := waiting q - {#c#} \<rparr>))"
proof -
  have r: "\<And>j. scope_count j (waiting q - {#c#}) \<le> 1"
    using assms(1,3) scope_count_remove[OF assms(3)]
    by (auto simp: one_inv_def intro: le_trans[OF diff_le_self])
  have r': "one_inv (q \<lparr> waiting := waiting q - {#c#} \<rparr>)"
    using r by (simp add: one_inv_def)
  have t: "\<And>i. scope_of c = Some i \<Longrightarrow> scope_count i (waiting q - {#c#}) = 0"
    using one_inv_taken[OF assms(1,3)] by blast
  have fresh: "scope_count (length (scopes q)) (waiting q - {#c#}) = 0"
    using ids_inv_remove[OF assms(2), of c] scope_count_fresh[of "waiting q - {#c#}"]
    by (auto simp: ids_inv_def)
  show ?thesis
  proof (cases c)
    case StartDone
    then show ?thesis using r'
      by (auto simp: start_done_def intro!: one_inv_maybeFlush) (auto simp: one_inv_def)
  next
    case (PushPut k v cb)
    then show ?thesis using r'
      by (auto simp: push_put_def emit_def intro!: one_inv_maybeFlush) (auto simp: one_inv_def)
  next
    case (BatchPut kvs cb)
    then show ?thesis using r'
      by (auto simp: batchPush_put_def emit_def intro!: one_inv_maybeFlush) (auto simp: one_inv_def)
  next
    case Poke
    then show ?thesis using r' fresh
      by (auto simp: poke_def Let_def emit_def await_def split: option.splits intro!: one_inv_maybeFlush)
         (auto simp: one_inv_def scope_count_add)
  next
    case (Transfered i)
    then show ?thesis using r' t[of i]
      by (auto simp: transfered_def run_worker_def emit_def await_def intro!: one_inv_flush)
         (auto simp: one_inv_def scope_count_add)
  next
    case (Ran i)
    then show ?thesis using r' t[of i]
      by (auto simp: ran_cb_def handleRunError_def await_def intro!: one_inv_backoff_backoff)
         (auto simp: one_inv_def scope_count_add)
  next
    case (RanAgain i b)
    then show ?thesis using r' t[of i]
      by (auto simp: ranAgain_def ran_cb_def await_def intro!: one_inv_backoff_backoff)
         (auto simp: one_inv_def scope_count_add)
  next
    case (DeletedPending i)
    then show ?thesis using r'
      by (auto simp: deletedPending_def emit_def intro!: one_inv_flush)
         (auto simp: one_inv_def scope_count_add)
  next
    case (Ready i b)
    then show ?thesis using r' t[of i]
      by (auto simp: backoff_ready_def run_worker_def Let_def await_def one_inv_def
            scope_count_add)
  qed
qed

lemma live_ok_append: "ids_ok (length ss) m c \<Longrightarrow> live_ok (ss @ [x]) c = live_ok ss c"
  by (cases c) (auto simp: nth_append)

lemma live_ok_update: "scope_of c \<noteq> Some i \<Longrightarrow> live_ok (ss[i := x]) c = live_ok ss c"
  by (cases c) auto

lemma done_inv_flush: "done_inv q \<Longrightarrow> done_inv (flush q)"
  by (auto simp: done_inv_def flush_def await_def)

lemma done_inv_maybeFlush: "done_inv q \<Longrightarrow> done_inv (maybeFlush q)"
  using done_inv_flush by (auto simp: maybeFlush_def) (auto simp: done_inv_def)

lemma done_inv_init: "done_inv (Queue w p a)"
  by (simp add: done_inv_def Queue_def)

lemma done_inv_remove: "done_inv q \<Longrightarrow> done_inv (q \<lparr> waiting := waiting q - {#c#} \<rparr>)"
  by (auto simp: done_inv_def dest: in_diffD)

lemma done_inv_backoff_backoff:
  "done_inv q \<Longrightarrow> \<not> p_done (scopes q ! i) \<Longrightarrow> done_inv (backoff_backoff i b q)"
  by (auto simp: done_inv_def backoff_backoff_def Let_def emit_def await_def)

lemma done_inv_ran_cb:
  assumes "done_inv q" "\<not> p_done (scopes q ! i)" "\<And>c'. c' \<in># waiting q \<Longrightarrow> scope_of c' \<noteq> Some i"
  shows "done_inv (ran_cb i err q)"
  using assms
  by (auto simp: ran_cb_def handleRunError_def await_def intro!: done_inv_backoff_backoff)
     (auto simp: done_inv_def live_ok_update)

lemma done_inv_ranAgain:
  assumes "done_inv q" "\<not> p_done (scopes q ! i)" "\<And>c'. c' \<in># waiting q \<Longrightarrow> scope_of c' \<noteq> Some i"
  shows "done_inv (ranAgain i b err q)"
  using assms by (simp add: ranAgain_def done_inv_ran_cb done_inv_backoff_backoff)

lemma done_inv_number: "done_inv q \<Longrightarrow> done_inv (q \<lparr> backoffs := bs \<rparr>)"
  by (simp add: done_inv_def)

lemma done_inv_resume_now:
  assumes "done_inv q" "one_inv q" "c \<in># waiting q"
  shows "done_inv (resume_now c x (q \<lparr> waiting := waiting q - {#c#} \<rparr>))"
proof -
  have c: "live_ok (scopes q) c"
    using assms by (simp add: done_inv_def)
  have r: "done_inv (q \<lparr> waiting := waiting q - {#c#} \<rparr>)"
    using assms(1) by (rule done_inv_remove)
  have others: "\<And>c' i. scope_of c = Some i \<Longrightarrow> c' \<in># waiting q - {#c#} \<Longrightarrow> scope_of c' \<noteq> Some i"
    using one_inv_others[OF assms(2,3)] by blast
  show ?thesis
  proof (cases c)
    case (Transfered i)
    then show ?thesis using r c others[of i]
      by (auto simp: transfered_def run_worker_def intro!: done_inv_flush done_inv_ran_cb)
         (auto simp: done_inv_def)
  next
    case (Ready i b)
    then show ?thesis using r c others[of i]
      by (auto simp: backoff_ready_def run_worker_def Let_def
               intro!: done_inv_number done_inv_ranAgain)
  qed (use r in simp_all)
qed

lemma done_inv_resume:
  assumes "done_inv q" "ids_inv q" "one_inv q" "c \<in># waiting q"
  shows "done_inv (resume c err (q \<lparr> waiting := waiting q - {#c#} \<rparr>))"
proof -
  have c: "live_ok (scopes q) c"
    using assms by (simp add: done_inv_def)
  have r: "done_inv (q \<lparr> waiting := waiting q - {#c#} \<rparr>)"
    using assms(1) by (rule done_inv_remove)
  have ids: "\<And>c'. c' \<in># waiting q - {#c#} \<Longrightarrow> ids_ok (length (scopes q)) (length (backoffs q)) c'"
    using assms(2) by (auto simp: ids_inv_def dest: in_diffD)
  have app: "\<And>c' x. c' \<in># waiting q - {#c#} \<Longrightarrow> live_ok (scopes q @ [x]) c' = live_ok (scopes q) c'"
    using ids live_ok_append by blast
  have others: "\<And>c' i. scope_of c = Some i \<Longrightarrow> c' \<in># waiting q - {#c#} \<Longrightarrow> scope_of c' \<noteq> Some i"
    using one_inv_others[OF assms(3,4)] by blast
  show ?thesis
  proof (cases c)
    case StartDone
    then show ?thesis using r
      by (auto simp: start_done_def intro!: done_inv_maybeFlush) (auto simp: done_inv_def)
  next
    case (PushPut k v cb)
    then show ?thesis using r
      by (auto simp: push_put_def emit_def intro!: done_inv_maybeFlush) (auto simp: done_inv_def)
  next
    case (BatchPut kvs cb)
    then show ?thesis using r
      by (auto simp: batchPush_put_def emit_def intro!: done_inv_maybeFlush) (auto simp: done_inv_def)
  next
    case Poke
    then show ?thesis using r app
      by (auto simp: poke_def Let_def emit_def await_def split: option.splits intro!: done_inv_maybeFlush)
         (auto simp: done_inv_def)
  next
    case (Transfered i)
    then show ?thesis using r c
      by (auto simp: transfered_def run_worker_def emit_def await_def intro!: done_inv_flush)
         (auto simp: done_inv_def)
  next
    case (Ran i)
    then show ?thesis using r c others[of i]
      by (auto simp: ran_cb_def handleRunError_def await_def intro!: done_inv_backoff_backoff)
         (auto simp: done_inv_def live_ok_update)
  next
    case (RanAgain i b)
    then show ?thesis using r c others[of i]
      by (auto simp: ranAgain_def ran_cb_def await_def intro!: done_inv_backoff_backoff)
         (auto simp: done_inv_def live_ok_update)
  next
    case (DeletedPending i)
    then show ?thesis using r c
      by (auto simp: deletedPending_def emit_def intro!: done_inv_flush)
         (auto simp: done_inv_def)
  next
    case (Ready i b)
    then show ?thesis using r c
      by (auto simp: backoff_ready_def run_worker_def Let_def await_def done_inv_def)
  qed
qed

lemma err_inv_flush: "err_inv q \<Longrightarrow> err_inv (flush q)"
  by (auto simp: err_inv_def flush_def await_def)

lemma err_inv_maybeFlush: "err_inv q \<Longrightarrow> err_inv (maybeFlush q)"
  using err_inv_flush by (auto simp: maybeFlush_def) (auto simp: err_inv_def)

lemma err_inv_backoff_backoff: "err_inv q \<Longrightarrow> err_inv (backoff_backoff i b q)"
  by (auto simp: err_inv_def backoff_backoff_def Let_def emit_def await_def)

lemma err_inv_done:
  assumes "\<forall>s \<in> set ss. p_err s = None"
  shows "\<forall>s \<in> set (ss[i := (ss ! i) \<lparr> p_done := True \<rparr>]). p_err s = None"
proof (cases "i < length ss")
  case True
  then have "p_err ((ss ! i) \<lparr> p_done := True \<rparr>) = None"
    using assms by simp
  then show ?thesis
    using assms set_update_subset_insert[of ss i "(ss ! i) \<lparr> p_done := True \<rparr>"] by auto
next
  case False
  then have "ss[i := (ss ! i) \<lparr> p_done := True \<rparr>] = ss"
    by (simp add: list_update_beyond)
  then show ?thesis using assms by simp
qed

lemma err_inv_ran_cb: "err_inv q \<Longrightarrow> err_inv (ran_cb i err q)"
  using err_inv_done[of "scopes q" i]
  by (auto simp: ran_cb_def handleRunError_def await_def intro!: err_inv_backoff_backoff)
     (auto simp: err_inv_def)

lemma err_inv_ranAgain: "err_inv q \<Longrightarrow> err_inv (ranAgain i b err q)"
  by (simp add: ranAgain_def err_inv_ran_cb err_inv_backoff_backoff)

lemma err_inv_number: "err_inv q \<Longrightarrow> err_inv (q \<lparr> backoffs := bs \<rparr>)"
  by (simp add: err_inv_def)

lemma err_inv_resume_now:
  assumes "err_inv q"
  shows "err_inv (resume_now c x (q \<lparr> waiting := W \<rparr>))"
proof -
  have r: "err_inv (q \<lparr> waiting := W \<rparr>)"
    using assms by (simp add: err_inv_def)
  show ?thesis
  proof (cases c)
    case (Transfered i)
    then show ?thesis using r
      by (auto simp: transfered_def run_worker_def intro!: err_inv_flush err_inv_ran_cb)
         (auto simp: err_inv_def)
  next
    case (Ready i b)
    then show ?thesis using r
      by (auto simp: backoff_ready_def run_worker_def Let_def
               intro!: err_inv_number err_inv_ranAgain)
  qed (use r in simp_all)
qed

lemma err_inv_resume:
  assumes "err_inv q"
  shows "err_inv (resume c err (q \<lparr> waiting := W \<rparr>))"
proof -
  have r: "err_inv (q \<lparr> waiting := W \<rparr>)"
    using assms by (simp add: err_inv_def)
  show ?thesis
  proof (cases c)
    case StartDone
    then show ?thesis using r
      by (auto simp: start_done_def intro!: err_inv_maybeFlush) (auto simp: err_inv_def)
  next
    case (PushPut k v cb)
    then show ?thesis using r
      by (auto simp: push_put_def emit_def intro!: err_inv_maybeFlush) (auto simp: err_inv_def)
  next
    case (BatchPut kvs cb)
    then show ?thesis using r
      by (auto simp: batchPush_put_def emit_def intro!: err_inv_maybeFlush) (auto simp: err_inv_def)
  next
    case Poke
    then show ?thesis using r
      by (auto simp: poke_def Let_def emit_def await_def split: option.splits intro!: err_inv_maybeFlush)
         (auto simp: err_inv_def)
  next
    case (Transfered i)
    then show ?thesis using r
      by (auto simp: transfered_def run_worker_def emit_def await_def intro!: err_inv_flush)
         (auto simp: err_inv_def)
  next
    case (Ran i)
    then show ?thesis using r err_inv_done[of "scopes q" i]
      by (auto simp: ran_cb_def handleRunError_def await_def intro!: err_inv_backoff_backoff)
         (auto simp: err_inv_def)
  next
    case (RanAgain i b)
    then show ?thesis using r err_inv_done[of "scopes q" i]
      by (auto simp: ranAgain_def ran_cb_def await_def intro!: err_inv_backoff_backoff)
         (auto simp: err_inv_def)
  next
    case (DeletedPending i)
    then show ?thesis using r
      by (auto simp: deletedPending_def emit_def intro!: err_inv_flush)
         (auto simp: err_inv_def)
  next
    case (Ready i b)
    then show ?thesis using r
      by (auto simp: backoff_ready_def run_worker_def Let_def await_def err_inv_def)
  qed
qed

lemma scopes_inv_init: "scopes_inv (Queue w p a)"
  by (simp add: scopes_inv_def ids_inv_init one_inv_init done_inv_init) (simp add: err_inv_def Queue_def)

lemma scopes_inv_step: "scopes_inv q \<Longrightarrow> step e q = Some q' \<Longrightarrow> scopes_inv q'"
proof (cases e)
  case (Complete c err)
  assume "scopes_inv q" "step e q = Some q'"
  then show ?thesis unfolding Complete scopes_inv_def
    using ids_inv_resume[of q c "map_option Err err"] one_inv_resume[of q c "map_option Err err"]
      done_inv_resume[of q c "map_option Err err"]
      err_inv_resume[of q c "map_option Err err" "waiting q - {#c#}"]
    by (auto split: if_splits)
next
  case (CompleteNow c x)
  assume "scopes_inv q" "step e q = Some q'"
  then show ?thesis unfolding CompleteNow scopes_inv_def
    using ids_inv_resume_now[of q c "map_option Err x"] one_inv_resume_now[of q c "map_option Err x"]
      done_inv_resume_now[of q c "map_option Err x"]
      err_inv_resume_now[of q c "map_option Err x" "waiting q - {#c#}"]
    by (auto split: if_splits)
next
  case (CallPush k v cb)
  assume "scopes_inv q" "step e q = Some q'"
  then show ?thesis unfolding CallPush
    by (auto simp: scopes_inv_def push_def await_def ids_inv_def one_inv_def done_inv_def err_inv_def scope_count_add)
next
  case (CallBatchPush kvs cb)
  assume "scopes_inv q" "step e q = Some q'"
  then show ?thesis unfolding CallBatchPush
    by (auto simp: scopes_inv_def batchPush_def await_def ids_inv_def one_inv_def done_inv_def err_inv_def scope_count_add)
qed

lemma scopes_inv_run: "scopes_inv q \<Longrightarrow> run es q = Some q' \<Longrightarrow> scopes_inv q'"
  by (induction es arbitrary: q) (auto split: option.splits dest: scopes_inv_step)

subsection \<open>Completion of a push\<close>

lemma notifications_flush [simp]: "notifications (flush q) = notifications q"
  by (simp add: flush_def await_def)

lemma notifications_maybeFlush [simp]: "notifications (maybeFlush q) = notifications q"
  by (simp add: maybeFlush_def)

text \<open>
  C7. When the write of a push completes, the state \<open>q1\<close> is reached first: on success the
  entry is in the work partition and the callback, if there is one, has been called with no
  error; on failure the store is unchanged and the callback has been called with the error
  or, without a callback, the error has been emitted. Then \<open>maybeFlush\<close> runs once, whatever
  the outcome: the request is recorded in \<open>needsFlush\<close> while the queue is starting or
  flushing, and otherwise it is a call of \<open>flush\<close>, which starts one peek when the queue is
  below \<open>maxConcurrency\<close> and not peeking.
\<close>

theorem push_completion:
  assumes "PushPut k v cb \<in># waiting q"
  shows "\<exists>q1. q1 = q \<lparr> waiting := waiting q - {#PushPut k v cb#},
                       work := (if err = None then store_put k v (work q) else work q),
                       notifications := notifications q @
                         (if err = None then (if cb then [PushCallback None] else [])
                          else if cb then [PushCallback (map_option Err err)]
                          else [ErrorEvent (map_option Err err)]) \<rparr>
           \<and> step (Complete (PushPut k v cb) err) q = Some (maybeFlush q1)
           \<and> maybeFlush q1 =
               (if starting q \<or> flushing q then q1 \<lparr> needsFlush := True \<rparr>
                else if below_max (concurrency q) (maxConcurrency (q_options q)) \<and> \<not> peeking q
                then q1 \<lparr> peeking := True, flushing := True, waiting := add_mset Poke (waiting q1) \<rparr>
                else q1)"
  using assms by (cases err) (simp_all add: push_put_def emit_def maybeFlush_def flush_def await_def)

text \<open>
  An instance: a push without callback on a new queue, whose write fails during recovery.
  The error is emitted and the dispatch request is recorded.
\<close>

theorem push_completion_witness:
  "PushPut ''7'' ''x'' False \<in># waiting (push ''7'' ''x'' False (Queue [] [] OptUndefined))
   \<and> map_option (\<lambda>q. (notifications q, needsFlush q, work q, waiting q))
        (step (Complete (PushPut ''7'' ''x'' False) (Some ''disk full''))
           (push ''7'' ''x'' False (Queue [] [] OptUndefined)))
      = Some ([ErrorEvent (Some (Err ''disk full''))], True, [], {#StartDone#})"
proof -
  have w: "PushPut ''7'' ''x'' False \<in># waiting (push ''7'' ''x'' False (Queue [] [] OptUndefined))"
    by (simp add: eval_defs)
  from push_completion[OF w, of "Some ''disk full''"] w show ?thesis
    by (auto simp: eval_defs)
qed

subsection \<open>Deletion after a successful run\<close>

text \<open>
  C3. A queue over a store with one queued job: the job is dispatched, the worker succeeds,
  and the deletion from the pending partition fails with an error. The queue emits nothing:
  no \<open>error\<close> event carries the deletion error, because \<open>deletedPending\<close> tests the \<open>err\<close>
  of the enclosing \<open>poke\<close>. The entry stays in the pending partition, the slot has been given
  back and a peek is outstanding.
\<close>

theorem deletion_error_not_reported:
  "map_option (\<lambda>q. (notifications q, pending q, concurrency q, count (waiting q) Poke))
     (run [Complete StartDone None, Complete Poke None, Complete (Transfered 0) None,
           Complete (Ran 0) None, Complete (DeletedPending 0) (Some ''IO error'')]
        (Queue [(''1'', ''a'')] [] OptUndefined))
   = Some ([], [(''1'', ''a'')], 0, 1)"
  by (simp add: eval_defs)

subsection \<open>The order of dispatch\<close>

lemma peek_None: "peek p = None \<longleftrightarrow> p = []"
  by (induction p rule: peek.induct) (auto split: option.splits)

lemma peek_member: "peek p = Some e \<Longrightarrow> e \<in> set p"
  by (induction p arbitrary: e rule: peek.induct) (auto split: option.splits if_splits)

lemma peek_least: "peek p = Some (k, v) \<Longrightarrow> k' \<in> keys p \<Longrightarrow> k \<le> k'"
proof (induction p arbitrary: k v k' rule: peek.induct)
  case 1
  then show ?case by simp
next
  case (2 k0 v0 p)
  show ?case
  proof (cases "peek p")
    case None
    then have "p = []" by (simp add: peek_None)
    with 2 None show ?thesis by (auto simp: keys_def)
  next
    case (Some e)
    obtain k1 v1 where e: "e = (k1, v1)" by (cases e)
    have ih: "\<And>k''. k'' \<in> keys p \<Longrightarrow> k1 \<le> k''"
      using "2.IH"[of k1 v1] Some e by simp
    from "2.prems" Some e show ?thesis
      by (auto simp: keys_def split: if_splits dest!: ih[unfolded keys_def])
  qed
qed

lemma succeeds_cases: "succeeds e \<Longrightarrow> \<exists>c. e = Complete c None"
  by (cases e rule: succeeds.cases) auto

lemma forced_run:
  "forced P cs q \<Longrightarrow> list_all succeeds es \<Longrightarrow> run es q = Some q'
   \<Longrightarrow> P q' \<and> es = map (\<lambda>c. Complete c None) (take (length es) cs)"
proof (induction cs arbitrary: es q)
  case Nil
  show ?case
  proof (cases es)
    case Nil
    then show ?thesis using Nil.prems by simp
  next
    case (Cons e es')
    then obtain c where "e = Complete c None"
      using Nil.prems(2) succeeds_cases by auto
    then show ?thesis using Nil.prems Cons by simp
  qed
next
  case (Cons c cs)
  show ?case
  proof (cases es)
    case Nil
    then show ?thesis using Cons.prems by simp
  next
    case (Cons e es')
    then obtain c' where e: "e = Complete c' None"
      using Cons.prems(2) succeeds_cases by auto
    have w: "waiting q = {#c#}"
      using Cons.prems(1) by simp
    have "c' = c"
      using Cons.prems(3) \<open>es = e # es'\<close> e w by (auto split: if_splits option.splits)
    then have r: "run es' (resume c None (q \<lparr> waiting := {#} \<rparr>)) = Some q'"
      using Cons.prems(3) \<open>es = e # es'\<close> e w by simp
    have "P q' \<and> es' = map (\<lambda>c. Complete c None) (take (length es') cs)"
      using Cons.IH[OF _ _ r] Cons.prems(1,2) \<open>es = e # es'\<close> by simp
    then show ?thesis
      using \<open>es = e # es'\<close> e \<open>c' = c\<close> by simp
  qed
qed

lemma fifo_chain:
  assumes "k1 < k2" "k2 < k3" "k1 \<noteq> []"
  shows "forced (\<lambda>q. map p_key (scopes q) \<in> {[], [k1], [k1, k2], [k1, k2, k3]}) three_jobs
           (Queue [(k2, v2), (k3, v3), (k1, v1)] [] (OptNumber 1))"
proof -
  from assms have o: "k1 \<le> k2" "k1 \<le> k3" "k2 \<le> k3" "\<not> k2 \<le> k1" "\<not> k3 \<le> k1" "\<not> k3 \<le> k2"
    "k1 \<noteq> k2" "k1 \<noteq> k3" "k2 \<noteq> k3" "k2 \<noteq> k1" "k3 \<noteq> k1" "k3 \<noteq> k2" "k2 \<noteq> []" "k3 \<noteq> []"
    by auto
  show ?thesis
    using assms o by (simp add: eval_defs three_jobs_def)
qed

text \<open>
  C6. A call of \<open>poke\<close> that dispatches a job dispatches the entry of the work partition
  with the smallest key: the new scope holds that key and its value, and the transfer of
  that entry is started. A peek over a work partition that is not empty, and whose keys
  are not empty strings, does dispatch. And with keys \<open>k1 < k2 < k3\<close> (non-empty strings,
  as the keys of \<open>timestamp()\<close> are) in the work partition, whatever their order in the
  store's representation, and \<open>maxConcurrency = 1\<close>: every run in which all operations
  succeed is a prefix of one sequence of completions, the keys dispatched so far are
  \<open>k1\<close>, then \<open>k2\<close>, then \<open>k3\<close>, and the whole sequence dispatches the three jobs in
  this order and leaves both partitions empty.
\<close>

theorem fifo_dispatch:
  "(step (Complete Poke err) q = Some q' \<and> scopes q' \<noteq> scopes q \<longrightarrow>
      (\<exists>k v. (k, v) \<in> set (work q) \<and> (\<forall>k' \<in> keys (work q). k \<le> k')
           \<and> scopes q' = scopes q @ [\<lparr> p_err = None, p_key = k, p_work = v, p_done = False \<rparr>]
           \<and> waiting q' = add_mset (Transfered (length (scopes q))) (waiting q - {#Poke#})))
 \<and> (Poke \<in># waiting q \<and> work q \<noteq> [] \<and> [] \<notin> keys (work q) \<longrightarrow>
      (\<exists>q'. step (Complete Poke err) q = Some q' \<and> scopes q' \<noteq> scopes q))
 \<and> (k1 < k2 \<and> k2 < k3 \<and> k1 \<noteq> [] \<longrightarrow>
      (list_all succeeds es
         \<and> run es (Queue [(k2, v2), (k3, v3), (k1, v1)] [] (OptNumber 1)) = Some qe \<longrightarrow>
           map p_key (scopes qe) \<in> {[], [k1], [k1, k2], [k1, k2, k3]}
         \<and> es = map (\<lambda>c. Complete c None) (take (length es) three_jobs))
    \<and> map_option (\<lambda>q. (map p_key (scopes q), work q, pending q, notifications q))
        (run (map (\<lambda>c. Complete c None) three_jobs)
           (Queue [(k2, v2), (k3, v3), (k1, v1)] [] (OptNumber 1)))
      = Some ([k1, k2, k3], [], [], [Drain]))"
proof (intro conjI impI)
  assume a: "step (Complete Poke err) q = Some q' \<and> scopes q' \<noteq> scopes q"
  then have q': "q' = poke None (peek (work q)) (q \<lparr> waiting := waiting q - {#Poke#} \<rparr>)"
    by (auto split: if_splits)
  show "\<exists>k v. (k, v) \<in> set (work q) \<and> (\<forall>k' \<in> keys (work q). k \<le> k')
           \<and> scopes q' = scopes q @ [\<lparr> p_err = None, p_key = k, p_work = v, p_done = False \<rparr>]
           \<and> waiting q' = add_mset (Transfered (length (scopes q))) (waiting q - {#Poke#})"
  proof (cases "peek (work q)")
    case None
    with a q' show ?thesis
      by (auto simp: poke_def Let_def emit_def maybeFlush_def flush_def await_def split: if_splits)
  next
    case (Some e)
    obtain k v where e: "e = (k, v)" by (cases e)
    have "k \<noteq> []"
      using a q' Some e
      by (auto simp: poke_def Let_def emit_def maybeFlush_def flush_def await_def split: if_splits)
    then show ?thesis
      using q' Some e peek_member[of "work q" "(k, v)"] peek_least[of "work q" k v]
      by (auto simp: poke_def Let_def await_def)
  qed
next
  assume a: "Poke \<in># waiting q \<and> work q \<noteq> [] \<and> [] \<notin> keys (work q)"
  then obtain k v where p: "peek (work q) = Some (k, v)"
    using peek_None[of "work q"] by (cases "peek (work q)") auto
  then have "k \<in> keys (work q)"
    using peek_member[of "work q" "(k, v)"] by (force simp: keys_def)
  then have "k \<noteq> []"
    using a by auto
  then show "\<exists>q'. step (Complete Poke err) q = Some q' \<and> scopes q' \<noteq> scopes q"
    using a p by (simp add: poke_def Let_def await_def)
next
  assume k: "k1 < k2 \<and> k2 < k3 \<and> k1 \<noteq> []"
  assume r: "list_all succeeds es
         \<and> run es (Queue [(k2, v2), (k3, v3), (k1, v1)] [] (OptNumber 1)) = Some qe"
  have "map p_key (scopes qe) \<in> {[], [k1], [k1, k2], [k1, k2, k3]}
         \<and> es = map (\<lambda>c. Complete c None) (take (length es) three_jobs)"
    using forced_run[OF fifo_chain, of k1 k2 k3 es v2 v3 v1 qe] k r by simp
  then show "map p_key (scopes qe) \<in> {[], [k1], [k1, k2], [k1, k2, k3]}"
    and "es = map (\<lambda>c. Complete c None) (take (length es) three_jobs)"
    by simp_all
next
  assume k: "k1 < k2 \<and> k2 < k3 \<and> k1 \<noteq> []"
  then have o: "k1 \<le> k2" "k1 \<le> k3" "k2 \<le> k3" "\<not> k2 \<le> k1" "\<not> k3 \<le> k1" "\<not> k3 \<le> k2"
    "k1 \<noteq> k2" "k1 \<noteq> k3" "k2 \<noteq> k3" "k2 \<noteq> k1" "k3 \<noteq> k1" "k3 \<noteq> k2" "k2 \<noteq> []" "k3 \<noteq> []"
    by auto
  show "map_option (\<lambda>q. (map p_key (scopes q), work q, pending q, notifications q))
        (run (map (\<lambda>c. Complete c None) three_jobs)
           (Queue [(k2, v2), (k3, v3), (k1, v1)] [] (OptNumber 1)))
      = Some ([k1, k2, k3], [], [], [Drain])"
    using k o by (simp add: eval_defs three_jobs_def)
qed

text \<open>An instance of the three parts, on keys \<open>a < b\<close> and \<open>1 < 2 < 3\<close>.\<close>

theorem fifo_dispatch_witness:
  "(\<exists>q q'. run [Complete StartDone None] (Queue [(''b'', ''2''), (''a'', ''1'')] [] OptUndefined) = Some q
        \<and> Poke \<in># waiting q \<and> work q \<noteq> [] \<and> [] \<notin> keys (work q)
        \<and> step (Complete Poke None) q = Some q' \<and> scopes q' \<noteq> scopes q
        \<and> map p_key (scopes q') = [''a''] \<and> Transfered 0 \<in># waiting q')
 \<and> ''1'' < ''2'' \<and> ''2'' < ''3'' \<and> ''1'' \<noteq> []
 \<and> (\<exists>qe. list_all succeeds [Complete StartDone None, Complete Poke None]
        \<and> run [Complete StartDone None, Complete Poke None]
             (Queue [(''2'', ''y''), (''3'', ''z''), (''1'', ''x'')] [] (OptNumber 1)) = Some qe
        \<and> map p_key (scopes qe) \<in> {[], [''1''], [''1'', ''2''], [''1'', ''2'', ''3'']})
 \<and> map_option (\<lambda>q. (map p_key (scopes q), work q, pending q, notifications q))
        (run (map (\<lambda>c. Complete c None) three_jobs)
           (Queue [(''2'', ''y''), (''3'', ''z''), (''1'', ''x'')] [] (OptNumber 1)))
      = Some ([''1'', ''2'', ''3''], [], [], [Drain])"
proof -
  have "\<exists>q q'. run [Complete StartDone None] (Queue [(''b'', ''2''), (''a'', ''1'')] [] OptUndefined) = Some q
        \<and> step (Complete Poke None) q = Some q' \<and> scopes q' \<noteq> scopes q \<and> scopes q = []
        \<and> work q = [(''b'', ''2''), (''a'', ''1'')] \<and> Poke \<in># waiting q"
    by (simp add: eval_defs)
  then obtain q q' where
    q: "run [Complete StartDone None] (Queue [(''b'', ''2''), (''a'', ''1'')] [] OptUndefined) = Some q"
    and s: "step (Complete Poke None) q = Some q'" "scopes q' \<noteq> scopes q"
    and e: "scopes q = []" "work q = [(''b'', ''2''), (''a'', ''1'')]"
    and p: "Poke \<in># waiting q"
    by (elim exE conjE) (rule that; assumption)
  have n: "work q \<noteq> []" "[] \<notin> keys (work q)"
    using e by (simp_all add: keys_def)
  have "\<exists>qe. run [Complete StartDone None, Complete Poke None]
             (Queue [(''2'', ''y''), (''3'', ''z''), (''1'', ''x'')] [] (OptNumber 1)) = Some qe"
    by (simp add: eval_defs)
  then obtain qe where
    re: "run [Complete StartDone None, Complete Poke None]
             (Queue [(''2'', ''y''), (''3'', ''z''), (''1'', ''x'')] [] (OptNumber 1)) = Some qe"
    by (elim exE)
  have l: "list_all succeeds [Complete StartDone None, Complete Poke None]"
    by simp
  have k: "''1'' < ''2''" "''2'' < ''3''" "''1'' \<noteq> []"
    by simp_all
  note t = fifo_dispatch[where q = q and q' = q' and err = None and ?k1.0 = "''1''" and ?k2.0 = "''2''"
      and ?k3.0 = "''3''" and ?v1.0 = "''x''" and ?v2.0 = "''y''" and ?v3.0 = "''z''"
      and es = "[Complete StartDone None, Complete Poke None]" and qe = qe]
  from t[THEN conjunct1] s e have d: "map p_key (scopes q') = [''a'']" "Transfered 0 \<in># waiting q'"
    by (auto simp: keys_def)
  have A: "\<exists>q q'. run [Complete StartDone None] (Queue [(''b'', ''2''), (''a'', ''1'')] [] OptUndefined) = Some q
        \<and> Poke \<in># waiting q \<and> work q \<noteq> [] \<and> [] \<notin> keys (work q)
        \<and> step (Complete Poke None) q = Some q' \<and> scopes q' \<noteq> scopes q
        \<and> map p_key (scopes q') = [''a''] \<and> Transfered 0 \<in># waiting q'"
    by (intro exI[of _ q] exI[of _ q'] conjI q p n s d)
  note u = mp[OF conjunct2[OF conjunct2[OF t]]]
  have c: "''1'' < ''2'' \<and> ''2'' < ''3'' \<and> ''1'' \<noteq> []"
    by simp
  have "map p_key (scopes qe) \<in> {[], [''1''], [''1'', ''2''], [''1'', ''2'', ''3'']}"
    using u[OF c, THEN conjunct1] l re by blast
  then have B: "\<exists>qe. list_all succeeds [Complete StartDone None, Complete Poke None]
        \<and> run [Complete StartDone None, Complete Poke None]
             (Queue [(''2'', ''y''), (''3'', ''z''), (''1'', ''x'')] [] (OptNumber 1)) = Some qe
        \<and> map p_key (scopes qe) \<in> {[], [''1''], [''1'', ''2''], [''1'', ''2'', ''3'']}"
    using l re by (intro exI[of _ qe] conjI)
  note C = u[OF c, THEN conjunct2]
  from A B C k show ?thesis by (intro conjI)
qed

subsection \<open>The store and the handlers\<close>

lemma keys_store_put [simp]: "keys (store_put k v p) = insert k (keys p)"
  by (auto simp: keys_def store_put_def)

lemma keys_store_del [simp]: "keys (store_del k p) = keys p - {k}"
  by (auto simp: keys_def store_del_def)

lemma keys_Cons [simp]: "keys (e # p) = insert (fst e) (keys p)"
  by (simp add: keys_def)

lemma keys_Nil [simp]: "keys [] = {}"
  by (simp add: keys_def)

lemma keys_store_put_all [simp]: "keys (store_put_all kvs p) = keys p \<union> keys kvs"
  by (induction kvs p rule: store_put_all.induct) auto

lemma store_put_all_keeps:
  "e \<in> set p \<Longrightarrow> fst e \<notin> keys kvs \<Longrightarrow> e \<in> set (store_put_all kvs p)"
  by (induction kvs p rule: store_put_all.induct) (auto simp: store_put_def)

lemma store_put_all_copies:
  "distinct (map fst kvs) \<Longrightarrow> e \<in> set kvs \<Longrightarrow> e \<in> set (store_put_all kvs p)"
proof (induction kvs p rule: store_put_all.induct)
  case (1 p)
  then show ?case by simp
next
  case (2 k v kvs p)
  show ?case
  proof (cases "e = (k, v)")
    case True
    have "(k, v) \<in> set (store_put k v p)"
      by (simp add: store_put_def)
    moreover have "fst (k, v) \<notin> keys kvs"
      using "2.prems"(1) by (simp add: keys_def)
    ultimately show ?thesis
      using True store_put_all_keeps[of "(k, v)" "store_put k v p" kvs] by simp
  next
    case False
    then show ?thesis using 2 by simp
  qed
qed

text \<open>Only the completion of a store operation changes a partition; the handlers do not.\<close>

lemma store_flush [simp]: "work (flush q) = work q" "pending (flush q) = pending q"
  by (simp_all add: flush_def await_def)

lemma store_maybeFlush [simp]: "work (maybeFlush q) = work q" "pending (maybeFlush q) = pending q"
  by (simp_all add: maybeFlush_def)

lemma store_backoff_backoff [simp]:
  "work (backoff_backoff i b q) = work q" "pending (backoff_backoff i b q) = pending q"
  by (simp_all add: backoff_backoff_def Let_def emit_def await_def)

lemma store_ran_cb [simp]: "work (ran_cb i err q) = work q" "pending (ran_cb i err q) = pending q"
  by (simp_all add: ran_cb_def handleRunError_def await_def)

lemma store_poke [simp]: "work (poke err f q) = work q" "pending (poke err f q) = pending q"
  by (simp_all add: poke_def Let_def emit_def await_def split: option.splits)

lemma store_handlers [simp]:
  "work (start_done q) = work q" "pending (start_done q) = pending q"
  "work (push_put cb err q) = work q" "pending (push_put cb err q) = pending q"
  "work (batchPush_put ks cb err q) = work q" "pending (batchPush_put ks cb err q) = pending q"
  "work (transfered i err r q) = work q" "pending (transfered i err r q) = pending q"
  "work (ranAgain i b err q) = work q" "pending (ranAgain i b err q) = pending q"
  "work (deletedPending i err q) = work q" "pending (deletedPending i err q) = pending q"
  "work (backoff_ready i b r q) = work q" "pending (backoff_ready i b r q) = pending q"
  by (simp_all add: start_done_def push_put_def batchPush_put_def transfered_def ranAgain_def
        deletedPending_def backoff_ready_def run_worker_def Let_def emit_def await_def
        split: reply.splits)

subsection \<open>The startup window\<close>

lemma in_diff_other: "x \<in># M \<Longrightarrow> x \<noteq> c \<Longrightarrow> x \<in># M - {#c#}"
  by (simp add: in_diff_count)

lemma starting_flush [simp]: "starting (flush q) = starting q"
  by (simp add: flush_def await_def)

lemma starting_maybeFlush [simp]: "starting (maybeFlush q) = starting q"
  by (simp add: maybeFlush_def)

lemma starting_backoff_backoff [simp]: "starting (backoff_backoff i b q) = starting q"
  by (simp add: backoff_backoff_def Let_def emit_def await_def)

lemma starting_ran_cb [simp]: "starting (ran_cb i err q) = starting q"
  by (simp add: ran_cb_def handleRunError_def await_def)

lemma starting_poke [simp]: "starting (poke err f q) = starting q"
  by (simp add: poke_def Let_def emit_def await_def split: option.splits)

lemma starting_worker [simp]:
  "starting (ranAgain i b err q) = starting q"
  "starting (transfered i err r q) = starting q"
  "starting (backoff_ready i b r q) = starting q"
  by (simp_all add: transfered_def ranAgain_def backoff_ready_def run_worker_def Let_def
        emit_def await_def split: reply.splits)

lemma starting_resume: "\<not> starting q \<Longrightarrow> \<not> starting (resume c err q)"
  by (cases c)
     (simp_all add: start_done_def push_put_def batchPush_put_def
        deletedPending_def Let_def emit_def await_def)

lemma starting_resume_now [simp]: "starting (resume_now c x q) = starting q"
  by (cases c) simp_all

lemma start_inv_init: "start_inv p (Queue w p a)"
  by (simp add: start_inv_def Queue_def)

lemma start_inv_step:
  assumes "start_inv p q" "step e q = Some q'"
  shows "start_inv p q'"
proof (cases "starting q")
  case False
  then have "\<not> starting q'"
    using assms(2) starting_resume by (cases e) (auto simp: push_def batchPush_def await_def split: if_splits)
  then show ?thesis by (simp add: start_inv_def)
next
  case True
  show ?thesis
  proof (cases e)
    case (CallPush k v cb)
    then show ?thesis using assms True by (auto simp: start_inv_def push_def await_def)
  next
    case (CallBatchPush kvs cb)
    then show ?thesis using assms True by (auto simp: start_inv_def batchPush_def await_def)
  next
    case (Complete c err)
    then have c: "c \<in># waiting q" and q': "q' = resume c (map_option Err err) (q \<lparr> waiting := waiting q - {#c#} \<rparr>)"
      using assms(2) by (auto split: if_splits)
    have rest: "\<forall>c' \<in># waiting q - {#c#}. before_start c'"
      using assms(1) True by (auto simp: start_inv_def dest: in_diffD)
    have bs: "before_start c"
      using assms(1) True c by (simp add: start_inv_def)
    have sd: "StartDone \<in># waiting q - {#c#}" if "c \<noteq> StartDone"
      using assms(1) True that by (simp add: start_inv_def in_diff_other)
    show ?thesis
    proof (cases c)
      case StartDone
      then show ?thesis using q' by (simp add: start_inv_def start_done_def)
    next
      case (PushPut k v cb)
      then show ?thesis using q' assms(1) True rest sd
        by (auto simp: start_inv_def push_put_def maybeFlush_def emit_def)
    next
      case (BatchPut kvs cb)
      then show ?thesis using q' assms(1) True rest sd
        by (auto simp: start_inv_def batchPush_put_def maybeFlush_def emit_def)
    qed (use bs in simp_all)
  next
    case (CompleteNow c x)
    then have "c \<in># waiting q" "invokes_worker c"
      using assms(2) by (auto split: if_splits)
    moreover have "\<forall>c' \<in># waiting q. before_start c'"
      using assms(1) True by (simp add: start_inv_def)
    ultimately have False
      by (cases c) auto
    then show ?thesis ..
  qed
qed

lemma start_inv_run: "start_inv p q \<Longrightarrow> run es q = Some q' \<Longrightarrow> start_inv p q'"
  by (induction es arbitrary: q) (auto split: option.splits dest: start_inv_step)

lemma below_max_zero: "below_max 0 m \<longleftrightarrow> m \<noteq> 0"
  by (cases m) (auto simp: below_max_def zero_enat_def)

text \<open>
  C2, as the code has it. In every state the queue reaches while \<open>starting\<close> is true,
  nothing has been dispatched: no peek is outstanding, no scope of \<open>poke\<close> exists, the
  counter is 0 and the pending partition is as it was found; a dispatch request is only
  recorded in \<open>needsFlush\<close>. When the recovery completes, every entry of the pending
  partition has been written to the work partition with its key and payload (the keys of
  a partition being distinct), the pending partition is unchanged: the entries are copied,
  not moved; \<open>starting\<close> is false and a dispatch attempt has started, a peek when
  \<open>maxConcurrency\<close> is not 0.
\<close>

theorem recovery_copies:
  assumes "run es (Queue w p a) = Some q" "starting q"
  shows "Poke \<notin># waiting q \<and> scopes q = [] \<and> concurrency q = 0 \<and> pending q = p
       \<and> maybeFlush q = q \<lparr> needsFlush := True \<rparr>
       \<and> (\<exists>q'. step (Complete StartDone err) q = Some q' \<and> \<not> starting q'
              \<and> pending q' = p \<and> work q' = store_put_all p (work q)
              \<and> (distinct (map fst p) \<longrightarrow> set p \<subseteq> set (work q'))
              \<and> (maxConcurrency (Queue_options a) \<noteq> 0
                   \<longrightarrow> Poke \<in># waiting q' \<and> peeking q' \<and> flushing q'))"
proof -
  have inv: "start_inv p q"
    using start_inv_run[OF start_inv_init assms(1)] .
  have opts: "q_options q = Queue_options a"
    using q_options_run[OF assms(1)] by (simp add: Queue_def)
  from inv assms(2) have s: "StartDone \<in># waiting q" "\<forall>c \<in># waiting q. before_start c"
    "\<not> flushing q" "\<not> peeking q" "concurrency q = 0" "scopes q = []" "pending q = p"
    by (auto simp: start_inv_def)
  have np: "Poke \<notin># waiting q"
    using s(2) by auto
  have mf: "maybeFlush q = q \<lparr> needsFlush := True \<rparr>"
    using assms(2) by (simp add: maybeFlush_def)
  define q' where "q' = start_done (q \<lparr> waiting := waiting q - {#StartDone#},
                                        work := store_put_all (pending q) (work q) \<rparr>)"
  have st: "step (Complete StartDone err) q = Some q'"
    using s(1) by (simp add: q'_def)
  have a: "\<not> starting q'" "pending q' = p" "work q' = store_put_all p (work q)"
    using s(7) by (simp_all add: q'_def start_done_def)
  have b: "set p \<subseteq> set (work q')" if "distinct (map fst p)"
    using that store_put_all_copies[of p _ "work q"] a(3) by auto
  have c: "Poke \<in># waiting q' \<and> peeking q' \<and> flushing q'"
    if "maxConcurrency (Queue_options a) \<noteq> 0"
    using that s(3,4,5) opts
    by (simp add: q'_def start_done_def maybeFlush_def flush_def await_def below_max_zero)
  show ?thesis
    using np s(5,6,7) mf st a b c by blast
qed

text \<open>
  An instance: a store with one queued job and one job left pending by a crash, and a push
  during the recovery.
\<close>

theorem recovery_copies_witness:
  "\<exists>q q'. run [CallPush ''7'' ''x'' True] (Queue [(''5'', ''e'')] [(''1'', ''a'')] OptUndefined) = Some q
      \<and> starting q \<and> Poke \<notin># waiting q \<and> pending q = [(''1'', ''a'')]
      \<and> step (Complete StartDone None) q = Some q' \<and> \<not> starting q'
      \<and> pending q' = [(''1'', ''a'')] \<and> work q' = [(''1'', ''a''), (''5'', ''e'')]
      \<and> Poke \<in># waiting q'"
proof -
  have "\<exists>q. run [CallPush ''7'' ''x'' True] (Queue [(''5'', ''e'')] [(''1'', ''a'')] OptUndefined) = Some q
      \<and> starting q \<and> work q = [(''5'', ''e'')]"
    by (simp add: eval_defs)
  then obtain q where
    r: "run [CallPush ''7'' ''x'' True] (Queue [(''5'', ''e'')] [(''1'', ''a'')] OptUndefined) = Some q"
    and s: "starting q" and w: "work q = [(''5'', ''e'')]"
    by blast
  have m: "maxConcurrency (Queue_options OptUndefined) \<noteq> 0"
    by (simp add: eval_defs)
  from recovery_copies[OF r s, of None] m obtain q' where
    "Poke \<notin># waiting q" "pending q = [(''1'', ''a'')]"
    "step (Complete StartDone None) q = Some q'" "\<not> starting q'"
    "pending q' = [(''1'', ''a'')]" "work q' = store_put_all [(''1'', ''a'')] (work q)"
    "Poke \<in># waiting q'"
    by blast
  with r s w show ?thesis
    by (auto simp: store_put_def)
qed

text \<open>
  Against C2 as stated: the entry found in the pending partition at startup is still there
  when the recovery has completed, next to its copy in the work partition.
\<close>

theorem recovery_keeps_pending:
  "map_option (\<lambda>q. (work q, pending q))
     (run [Complete StartDone None] (Queue [] [(''1'', ''a'')] OptUndefined))
   = Some ([(''1'', ''a'')], [(''1'', ''a'')])"
  by (simp add: eval_defs)

subsection \<open>Membership in the partitions\<close>


lemma sd_flush [simp]: "count (waiting (flush q)) StartDone = count (waiting q) StartDone"
  by (simp add: flush_def await_def)

lemma sd_maybeFlush [simp]: "count (waiting (maybeFlush q)) StartDone = count (waiting q) StartDone"
  by (simp add: maybeFlush_def)

lemma sd_backoff_backoff [simp]:
  "count (waiting (backoff_backoff i b q)) StartDone = count (waiting q) StartDone"
  by (simp add: backoff_backoff_def Let_def emit_def await_def)

lemma sd_ran_cb [simp]: "count (waiting (ran_cb i err q)) StartDone = count (waiting q) StartDone"
  by (simp add: ran_cb_def handleRunError_def await_def)

lemma sd_poke [simp]: "count (waiting (poke err f q)) StartDone = count (waiting q) StartDone"
  by (simp add: poke_def Let_def emit_def await_def split: option.splits)

lemma sd_worker [simp]:
  "count (waiting (ranAgain i b err q)) StartDone = count (waiting q) StartDone"
  "count (waiting (transfered i err r q)) StartDone = count (waiting q) StartDone"
  "count (waiting (backoff_ready i b r q)) StartDone = count (waiting q) StartDone"
  by (simp_all add: transfered_def ranAgain_def backoff_ready_def run_worker_def Let_def
        emit_def await_def split: reply.splits)

lemma sd_resume [simp]: "count (waiting (resume c err q)) StartDone = count (waiting q) StartDone"
  by (cases c)
     (simp_all add: start_done_def push_put_def batchPush_put_def
        deletedPending_def Let_def emit_def await_def)

lemma sd_resume_now [simp]:
  "count (waiting (resume_now c x q)) StartDone = count (waiting q) StartDone"
  by (cases c) simp_all

lemma starting_resume_other: "c \<noteq> StartDone \<Longrightarrow> starting (resume c err q) = starting q"
  by (cases c)
     (simp_all add: push_put_def batchPush_put_def
        deletedPending_def Let_def emit_def await_def)


lemma once_inv_step: "once_inv q \<Longrightarrow> step e q = Some q' \<Longrightarrow> once_inv q'"
proof (cases e)
  case (Complete c err)
  assume a: "once_inv q" "step e q = Some q'"
  then have c: "c \<in># waiting q"
    and q': "q' = resume c (map_option Err err) (q \<lparr> waiting := waiting q - {#c#} \<rparr>)"
    using Complete by (auto split: if_splits)
  show ?thesis
  proof (cases "c = StartDone")
    case True
    then have "count (waiting q) StartDone = 1"
      using a(1) c by (auto simp: once_inv_def count_eq_zero_iff split: if_splits)
    then show ?thesis
      using True q' by (simp add: once_inv_def start_done_def)
  next
    case False
    then show ?thesis
      using a(1) q' by (simp add: once_inv_def starting_resume_other)
  qed
next
  case (CompleteNow c x)
  assume a: "once_inv q" "step e q = Some q'"
  then have c: "c \<noteq> StartDone"
    and q': "q' = resume_now c (map_option Err x) (q \<lparr> waiting := waiting q - {#c#} \<rparr>)"
    using CompleteNow by (auto split: if_splits)
  then show ?thesis
    using a(1) by (simp add: once_inv_def)
qed (auto simp: once_inv_def push_def batchPush_def await_def)

lemma once_inv_run: "once_inv q \<Longrightarrow> run es q = Some q' \<Longrightarrow> once_inv q'"
  by (induction es arbitrary: q) (auto split: option.splits dest: once_inv_step)





subsection \<open>The first drain\<close>

lemma run_quiescent:
  assumes "waiting q = {#}" "run es q = Some q'" "\<forall>e \<in> set es. \<not> is_call e"
  shows "es = []"
proof (cases es)
  case (Cons e es')
  then show ?thesis using assms by (cases e) (auto split: option.splits)
qed simp

text \<open>
  C10, as the code has it. A queue constructed on a store whose two partitions are empty,
  with \<open>maxConcurrency\<close> not 0, and never pushed to, can only complete its recovery and then
  its first peek; that peek finds nothing and emits the one \<open>drain\<close>, since \<open>needsDrain\<close>
  starts as true. Nothing is outstanding afterwards.
\<close>

theorem single_drain:
  assumes "maxConcurrency (Queue_options a) \<noteq> 0"
    and "run es (Queue [] [] a) = Some q"
    and "\<forall>e \<in> set es. \<not> is_call e"
  shows "((length es < 2 \<and> notifications q = [])
          \<or> (length es = 2 \<and> notifications q = [Drain] \<and> waiting q = {#}))
       \<and> (\<exists>q2. run [Complete StartDone None, Complete Poke None] (Queue [] [] a) = Some q2
                \<and> notifications q2 = [Drain])"
proof -
  define q1 where "q1 = (Queue [] [] a) \<lparr> waiting := {#Poke#}, starting := False,
                            peeking := True, flushing := True \<rparr>"
  define q2 where "q2 = (Queue [] [] a) \<lparr> waiting := {#}, starting := False,
                            peeking := False, flushing := False, needsDrain := False,
                            notifications := [Drain] \<rparr>"
  have bm: "below_max 0 (maxConcurrency (Queue_options a))"
    using assms(1) by (simp add: below_max_zero)
  have s1: "step e (Queue [] [] a) = Some q' \<Longrightarrow> \<not> is_call e \<Longrightarrow> q' = q1" for e q'
    using bm
    by (cases e)
       (auto simp: q1_def Queue_def start_done_def maybeFlush_def flush_def await_def
             split: if_splits)
  have s2: "step e q1 = Some q' \<Longrightarrow> \<not> is_call e \<Longrightarrow> q' = q2" for e q'
    by (cases e)
       (auto simp: q1_def q2_def Queue_def poke_def Let_def emit_def split: if_splits)
  have e1: "step (Complete StartDone None) (Queue [] [] a) = Some q1"
    using bm
    by (simp add: q1_def Queue_def start_done_def maybeFlush_def flush_def await_def)
  have e2: "step (Complete Poke None) q1 = Some q2"
    by (simp add: q1_def q2_def Queue_def poke_def Let_def emit_def)
  have n: "notifications (Queue [] [] a) = []" "notifications q1 = []"
    "notifications q2 = [Drain]" "waiting q2 = {#}"
    by (simp_all add: q1_def q2_def Queue_def)
  have ex: "\<exists>q2. run [Complete StartDone None, Complete Poke None] (Queue [] [] a) = Some q2
                \<and> notifications q2 = [Drain]"
    using e1 e2 n by simp
  have main: "(length es < 2 \<and> notifications q = [])
          \<or> (length es = 2 \<and> notifications q = [Drain] \<and> waiting q = {#})"
  proof (cases es)
    case Nil
    then have "q = Queue [] [] a" using assms(2) by simp
    then show ?thesis using Nil n by simp
  next
    case (Cons e es')
    then obtain qa where a: "step e (Queue [] [] a) = Some qa" "run es' qa = Some q"
      using assms(2) by (auto split: option.splits)
    have qa: "qa = q1"
      using s1[OF a(1)] assms(3) Cons by simp
    show ?thesis
    proof (cases es')
      case Nil
      then have "q = q1" using a(2) qa by simp
      then show ?thesis using Nil Cons n by simp
    next
      case (Cons e' es'')
      then obtain qb where b: "step e' q1 = Some qb" "run es'' qb = Some q"
        using a(2) qa by (auto split: option.splits)
      have qb: "qb = q2"
        using s2[OF b(1)] assms(3) Cons \<open>es = e # es'\<close> by simp
      have nil: "es'' = []"
        using run_quiescent[of q2 es'' q] b(2) qb assms(3) Cons \<open>es = e # es'\<close> n
        by simp
      then have "q = q2" using b(2) qb by simp
      then show ?thesis
        using nil Cons \<open>es = e # es'\<close> n by simp
    qed
  qed
  from main ex show ?thesis by (rule conjI)
qed

text \<open>An instance, with \<open>maxConcurrency = 2\<close>.\<close>

theorem single_drain_witness:
  "maxConcurrency (Queue_options (OptNumber 2)) \<noteq> 0
   \<and> map_option (\<lambda>q. (notifications q, waiting q))
       (run [Complete StartDone None, Complete Poke None] (Queue [] [] (OptNumber 2)))
     = Some ([Drain], {#})"
proof -
  have m: "maxConcurrency (Queue_options (OptNumber 2)) \<noteq> 0"
    by (simp add: eval_defs)
  have "\<exists>q. run [Complete StartDone None, Complete Poke None] (Queue [] [] (OptNumber 2)) = Some q"
    by (simp add: eval_defs numeral_eq_enat)
  then obtain q where r: "run [Complete StartDone None, Complete Poke None] (Queue [] [] (OptNumber 2)) = Some q"
    by blast
  have c: "\<forall>e \<in> set [Complete StartDone None, Complete Poke None]. \<not> is_call e"
    by simp
  from single_drain[OF m r c] have "notifications q = [Drain] \<and> waiting q = {#}"
    by simp
  with m r show ?thesis by simp
qed

text \<open>
  Against C10 as stated: the pending partition is empty and nothing is pushed, but the store
  holds one queued job. The first \<open>drain\<close> is emitted while the job is running, the second
  after it has succeeded. And on an empty store with \<open>maxConcurrency = 0\<close>, the recovery
  completes, no peek starts and nothing is outstanding: no \<open>drain\<close> is emitted.
\<close>

theorem second_drain_without_push:
  "map_option notifications
     (run [Complete StartDone None, Complete Poke None, Complete (Transfered 0) None,
           Complete Poke None, Complete (Ran 0) None, Complete (DeletedPending 0) None,
           Complete Poke None]
        (Queue [(''1'', ''a'')] [] OptUndefined))
   = Some [Drain, Drain]
 \<and> map_option (\<lambda>q. (notifications q, waiting q))
     (run [Complete StartDone None] (Queue [] [] (OptNumber 0)))
   = Some ([], {#})"
  by (simp add: eval_defs zero_enat_def)

subsection \<open>Retries\<close>

lemma run_append:
  "run (xs @ ys) q = (case run xs q of None \<Rightarrow> None | Some q' \<Rightarrow> run ys q')"
  by (induction xs arbitrary: q) (auto split: option.splits)

lemma retries_snoc:
  "retries i b e (Suc m) = retries i b e m @ [Complete (Ready i b) None, Complete (RanAgain i b) (Some e)]"
  by (induction m) auto

lemma retry_round:
  assumes "Ready i b \<in># waiting q" "b < length (backoffs q)"
    "Suc (backoffNumber (backoffs q ! b)) \<noteq> maxNumberOfRetry (backoffs q ! b)"
  shows "run [Complete (Ready i b) None, Complete (RanAgain i b) (Some e)] q
         = Some (set_number b (Suc (backoffNumber (backoffs q ! b))) q)"
  using assms
  by (simp add: backoff_ready_def run_worker_def ranAgain_def backoff_backoff_def await_def Let_def
        set_number_def)

lemma retries_run:
  assumes "Ready i b \<in># waiting q" "b < length (backoffs q)"
    "backoffNumber (backoffs q ! b) + k < maxNumberOfRetry (backoffs q ! b)"
  shows "run (retries i b e k) q = Some (set_number b (backoffNumber (backoffs q ! b) + k) q)"
  using assms
proof (induction k arbitrary: q)
  case 0
  then show ?case by (simp add: set_number_def)
next
  case (Suc k)
  let ?q1 = "set_number b (Suc (backoffNumber (backoffs q ! b))) q"
  have r: "run [Complete (Ready i b) None, Complete (RanAgain i b) (Some e)] q = Some ?q1"
    using Suc.prems by (intro retry_round) auto
  have p: "Ready i b \<in># waiting ?q1" "b < length (backoffs ?q1)"
    "backoffNumber (backoffs ?q1 ! b) + k < maxNumberOfRetry (backoffs ?q1 ! b)"
    using Suc.prems by (simp_all add: set_number_def)
  have "run (retries i b e (Suc k)) q
        = run ([Complete (Ready i b) None, Complete (RanAgain i b) (Some e)] @ retries i b e k) q"
    by simp
  also have "\<dots> = run (retries i b e k) ?q1"
    by (simp only: run_append r option.case)
  also have "\<dots> = Some (set_number b (backoffNumber (backoffs ?q1 ! b) + k) ?q1)"
    using Suc.IH[OF p] .
  also have "set_number b (backoffNumber (backoffs ?q1 ! b) + k) ?q1
             = set_number b (backoffNumber (backoffs q ! b) + Suc k) q"
    using Suc.prems(2) by (simp add: set_number_def)
  finally show ?case .
qed

lemma first_failure:
  assumes "Ran i \<in># waiting q" "maxRetries (q_options q) \<noteq> 0"
  shows "step (Complete (Ran i) (Some e)) q =
           Some (q \<lparr> waiting := add_mset (Ready i (length (backoffs q))) (waiting q - {#Ran i#}),
                     backoffs := backoffs q @
                       [\<lparr> backoffNumber = 0, maxNumberOfRetry = maxRetries (q_options q),
                          failListener = True \<rparr>] \<rparr>)"
  using assms
  by (simp add: ran_cb_def handleRunError_def backoff_backoff_def await_def Let_def)

lemma last_failure:
  assumes "Ready i b \<in># waiting q" "b < length (backoffs q)"
    "Suc (backoffNumber (backoffs q ! b)) = maxNumberOfRetry (backoffs q ! b)"
    "failListener (backoffs q ! b)"
  shows "run [Complete (Ready i b) None, Complete (RanAgain i b) (Some e)] q =
           Some (q \<lparr> waiting := waiting q - {#Ready i b#},
                     backoffs := (backoffs q)[b := (backoffs q ! b)
                        \<lparr> backoffNumber := 0, failListener := False \<rparr>],
                     notifications := notifications q @ [ErrorEvent (Some MaxRetriesReached)] \<rparr>)"
  using assms
  by (simp add: backoff_ready_def run_worker_def ranAgain_def backoff_backoff_def await_def emit_def
        Let_def)

lemma success:
  assumes "i < length (scopes q)" "\<not> p_done (scopes q ! i)"
  shows "ran_cb i None q =
           q \<lparr> waiting := add_mset (DeletedPending i) (waiting q),
               scopes := (scopes q)[i := (scopes q ! i) \<lparr> p_done := True \<rparr>],
               needsDrain := True,
               concurrency := concurrency q - 1 \<rparr>"
  using assms by (simp add: ran_cb_def await_def)

lemma retry_success:
  assumes "Ready i b \<in># waiting q" "b < length (backoffs q)"
    "i < length (scopes q)" "\<not> p_done (scopes q ! i)"
  shows "run [Complete (Ready i b) None, Complete (RanAgain i b) None] q =
           Some (q \<lparr> waiting := add_mset (DeletedPending i) (waiting q - {#Ready i b#}),
                     backoffs := (backoffs q)[b := (backoffs q ! b)
                        \<lparr> backoffNumber := Suc (backoffNumber (backoffs q ! b)) \<rparr>],
                     scopes := (scopes q)[i := (scopes q ! i) \<lparr> p_done := True \<rparr>],
                     needsDrain := True,
                     concurrency := concurrency q - 1 \<rparr>)"
  using assms
  by (simp add: backoff_ready_def run_worker_def ranAgain_def ran_cb_def await_def Let_def)

lemma deletion:
  assumes "DeletedPending i \<in># waiting q" "p_err (scopes q ! i) = None"
  shows "step (Complete (DeletedPending i) None) q =
           Some (flush (q \<lparr> waiting := waiting q - {#DeletedPending i#},
                            pending := store_del (p_key (scopes q ! i)) (pending q) \<rparr>))"
  using assms by (simp add: deletedPending_def)

text \<open>The whole episode, on a state described by hypotheses.\<close>

lemma episode_exhausted:
  assumes "Ran i \<in># waiting q" "maxRetries (q_options q) = n" "0 < n"
  shows "run (always_fails i (length (backoffs q)) e n) q =
           Some (q \<lparr> waiting := waiting q - {#Ran i#},
                     backoffs := backoffs q @
                       [\<lparr> backoffNumber = 0, maxNumberOfRetry = n, failListener = False \<rparr>],
                     notifications := notifications q @ [ErrorEvent (Some MaxRetriesReached)] \<rparr>)"
proof -
  let ?b = "length (backoffs q)"
  define q1 where "q1 = q \<lparr> waiting := add_mset (Ready i ?b) (waiting q - {#Ran i#}),
                     backoffs := backoffs q @
                       [\<lparr> backoffNumber = 0, maxNumberOfRetry = n, failListener = True \<rparr>] \<rparr>"
  obtain k where n: "n = Suc k"
    using assms(3) by (cases n) auto
  have s1: "step (Complete (Ran i) (Some e)) q = Some q1"
    using first_failure[of i q e] assms by (simp add: q1_def)
  have s2: "run (retries i ?b e k) q1 = Some (set_number ?b k q1)"
    using retries_run[of i ?b q1 k e] n by (simp add: q1_def)
  have s3: "run [Complete (Ready i ?b) None, Complete (RanAgain i ?b) (Some e)] (set_number ?b k q1)
            = Some (q \<lparr> waiting := waiting q - {#Ran i#},
                     backoffs := backoffs q @
                       [\<lparr> backoffNumber = 0, maxNumberOfRetry = n, failListener = False \<rparr>],
                     notifications := notifications q @ [ErrorEvent (Some MaxRetriesReached)] \<rparr>)"
    using last_failure[of i ?b "set_number ?b k q1" e] n
    by (simp add: q1_def set_number_def)
  have "always_fails i ?b e n =
          Complete (Ran i) (Some e) # (retries i ?b e k
            @ [Complete (Ready i ?b) None, Complete (RanAgain i ?b) (Some e)])"
    unfolding always_fails_def n retries_snoc ..
  then show ?thesis
    using s1 s2 s3 by (simp add: run_append)
qed

lemma episode_success:
  assumes "Ran i \<in># waiting q" "maxRetries (q_options q) = n" "m \<le> n"
    "i < length (scopes q)" "\<not> p_done (scopes q ! i)"
  shows "\<exists>bs. run (fails_then_succeeds i (length (backoffs q)) e m) q =
           Some (q \<lparr> waiting := add_mset (DeletedPending i) (waiting q - {#Ran i#}),
                     backoffs := bs,
                     scopes := (scopes q)[i := (scopes q ! i) \<lparr> p_done := True \<rparr>],
                     needsDrain := True,
                     concurrency := concurrency q - 1 \<rparr>)"
proof (cases m)
  case 0
  then show ?thesis
    using assms success[of i "q \<lparr> waiting := waiting q - {#Ran i#} \<rparr>"]
    by (auto simp: fails_then_succeeds_def intro!: exI[of _ "backoffs q"])
next
  case (Suc k)
  let ?b = "length (backoffs q)"
  define q1 where "q1 = q \<lparr> waiting := add_mset (Ready i ?b) (waiting q - {#Ran i#}),
                     backoffs := backoffs q @
                       [\<lparr> backoffNumber = 0, maxNumberOfRetry = n, failListener = True \<rparr>] \<rparr>"
  have n0: "n \<noteq> 0" using Suc assms(3) by simp
  have s1: "step (Complete (Ran i) (Some e)) q = Some q1"
    using first_failure[of i q e] assms n0 by (simp add: q1_def)
  have s2: "run (retries i ?b e k) q1 = Some (set_number ?b k q1)"
    using retries_run[of i ?b q1 k e] Suc assms(3) by (simp add: q1_def)
  have s3: "run [Complete (Ready i ?b) None, Complete (RanAgain i ?b) None] (set_number ?b k q1)
            = Some (q \<lparr> waiting := add_mset (DeletedPending i) (waiting q - {#Ran i#}),
                     backoffs := backoffs q @
                       [\<lparr> backoffNumber = Suc k, maxNumberOfRetry = n, failListener = True \<rparr>],
                     scopes := (scopes q)[i := (scopes q ! i) \<lparr> p_done := True \<rparr>],
                     needsDrain := True,
                     concurrency := concurrency q - 1 \<rparr>)"
    using retry_success[of i ?b "set_number ?b k q1"] assms(4,5)
    by (simp add: q1_def set_number_def)
  have "fails_then_succeeds i ?b e m =
          Complete (Ran i) (Some e) # (retries i ?b e k
            @ [Complete (Ready i ?b) None, Complete (RanAgain i ?b) None])"
    by (simp add: fails_then_succeeds_def Suc)
  then show ?thesis
    using s1 s2 s3 by (auto simp: run_append)
qed

lemma concurrency_flush [simp]: "concurrency (flush q) = concurrency q"
  by (simp add: flush_def await_def)

lemma reachable_running:
  assumes "run es (Queue w p a) = Some q" "c \<in># waiting q" "scope_of c = Some i"
  shows "i < length (scopes q)" "p_err (scopes q ! i) = None" "q_options q = Queue_options a"
    "c \<noteq> DeletedPending i \<Longrightarrow> \<not> p_done (scopes q ! i)"
proof -
  have inv: "scopes_inv q"
    using scopes_inv_run[OF scopes_inv_init assms(1)] .
  then have "ids_ok (length (scopes q)) (length (backoffs q)) c"
    using assms(2) by (simp add: scopes_inv_def ids_inv_def)
  then show i: "i < length (scopes q)"
    using assms(3) by (cases c) auto
  show "p_err (scopes q ! i) = None"
    using inv i by (simp add: scopes_inv_def err_inv_def)
  show "q_options q = Queue_options a"
    using q_options_run[OF assms(1)] by (simp add: Queue_def)
  have "live_ok (scopes q) c"
    using inv assms(2) by (simp add: scopes_inv_def done_inv_def)
  then show "c \<noteq> DeletedPending i \<Longrightarrow> \<not> p_done (scopes q ! i)"
    using assms(3) by (cases c) auto
qed

subsection \<open>After the retries are exhausted\<close>

lemma spent_exhausted: "spent b q \<Longrightarrow> 1 \<le> exhausted (backoffs q)"
proof -
  assume "spent b q"
  then have "backoffs q ! b \<in> set (filter (\<lambda>b. \<not> failListener b) (backoffs q))"
    by (simp add: spent_def)
  then have "filter (\<lambda>b. \<not> failListener b) (backoffs q) \<noteq> []"
    by (metis empty_iff list.set(1))
  then show ?thesis
    by (simp add: exhausted_def Suc_le_eq)
qed

lemma nth_update_cases:
  "b < length bs \<Longrightarrow> bs[b' := x] ! b = (if b' = b then x else bs ! b)"
  by (cases "b' = b") auto

lemma backoffs_flush [simp]: "backoffs (flush q) = backoffs q"
  by (simp add: flush_def await_def)

lemma backoffs_maybeFlush [simp]: "backoffs (maybeFlush q) = backoffs q"
  by (simp add: maybeFlush_def)

lemma spent_backoff_backoff: "spent b q \<Longrightarrow> spent b (backoff_backoff i b' q)"
  by (auto simp: spent_def backoff_backoff_def Let_def emit_def await_def nth_update_cases)

lemma spent_ran_cb: "spent b q \<Longrightarrow> spent b (ran_cb i err q)"
  by (auto simp: ran_cb_def handleRunError_def await_def intro!: spent_backoff_backoff)
     (auto simp: spent_def nth_append)

lemma spent_ranAgain: "spent b q \<Longrightarrow> spent b (ranAgain i b' err q)"
  by (simp add: ranAgain_def spent_ran_cb spent_backoff_backoff)

lemma spent_number:
  "spent b q \<Longrightarrow>
   spent b (q \<lparr> backoffs := (backoffs q)[b' := (backoffs q ! b') \<lparr> backoffNumber := n \<rparr>] \<rparr>)"
  by (auto simp: spent_def nth_update_cases)

lemma spent_waiting: "spent b (q \<lparr> waiting := W \<rparr>) = spent b q"
  by (simp add: spent_def)

lemma spent_store: "spent b (q \<lparr> work := w, pending := p \<rparr>) = spent b q"
  by (simp add: spent_def)

lemma spent_flush [simp]: "spent b (flush q) = spent b q"
  by (simp add: spent_def)

lemma spent_resume_now: "spent b q \<Longrightarrow> spent b (resume_now c x (q \<lparr> waiting := W \<rparr>))"
proof (cases c)
  case (Transfered i)
  assume "spent b q"
  then show ?thesis unfolding Transfered
    by (simp add: transfered_def run_worker_def spent_ran_cb spent_waiting spent_store)
next
  case (Ready i b')
  assume "spent b q"
  then show ?thesis unfolding Ready
    by (simp add: backoff_ready_def run_worker_def Let_def spent_number spent_ranAgain
          spent_waiting)
qed (simp_all add: spent_waiting)

lemma spent_resume: "spent b q \<Longrightarrow> spent b (resume c err (q \<lparr> waiting := W \<rparr>))"
proof (cases c)
  case (Ran i)
  assume "spent b q"
  then have "spent b (q \<lparr> waiting := W \<rparr>)" by (simp add: spent_def)
  then show ?thesis unfolding Ran by (simp add: spent_ran_cb)
next
  case (RanAgain i b')
  assume "spent b q"
  then have "spent b (q \<lparr> waiting := W \<rparr>)" by (simp add: spent_def)
  then show ?thesis unfolding RanAgain
    by (simp add: ranAgain_def spent_ran_cb spent_backoff_backoff)
next
  case (Ready i b')
  assume "spent b q"
  then show ?thesis unfolding Ready
    by (auto simp: spent_def backoff_ready_def run_worker_def Let_def await_def nth_update_cases)
next
  case Poke
  assume "spent b q"
  then show ?thesis unfolding Poke
    by (auto simp: poke_def Let_def emit_def await_def split: option.splits) (auto simp: spent_def)
qed (auto simp: spent_def start_done_def push_put_def batchPush_put_def transfered_def
       run_worker_def deletedPending_def emit_def await_def)

lemma spent_step: "spent b q \<Longrightarrow> step e q = Some q' \<Longrightarrow> spent b q'"
  by (cases e)
     (auto simp: spent_resume spent_resume_now split: if_splits,
      auto simp: spent_def push_def batchPush_def await_def)

lemma spent_run: "spent b q \<Longrightarrow> run es q = Some q' \<Longrightarrow> spent b q'"
  by (induction es arbitrary: q) (auto split: option.splits dest: spent_step)

lemma dead_flush [simp]: "dead i (flush q) = dead i q"
  by (simp add: dead_def flush_def await_def scope_count_add)

lemma dead_maybeFlush [simp]: "dead i (maybeFlush q) = dead i q"
  by (cases "\<not> starting q \<and> \<not> flushing q") (simp_all add: maybeFlush_def, simp add: dead_def)

lemma dead_backoff_backoff: "dead i q \<Longrightarrow> j \<noteq> i \<Longrightarrow> dead i (backoff_backoff j b q)"
  by (auto simp: dead_def backoff_backoff_def Let_def emit_def await_def scope_count_add)

lemma dead_ran_cb: "dead i q \<Longrightarrow> j \<noteq> i \<Longrightarrow> dead i (ran_cb j err q)"
  by (auto simp: ran_cb_def handleRunError_def await_def intro!: dead_backoff_backoff)
     (auto simp: dead_def scope_count_add)

lemma dead_ranAgain: "dead i q \<Longrightarrow> j \<noteq> i \<Longrightarrow> dead i (ranAgain j b err q)"
  by (simp add: ranAgain_def dead_ran_cb dead_backoff_backoff)

lemma dead_number: "dead i (q \<lparr> backoffs := bs \<rparr>) = dead i q"
  by (simp add: dead_def)

lemma dead_store: "dead i (q \<lparr> work := w, pending := p \<rparr>) = dead i q"
  by (simp add: dead_def)

lemma dead_resume_now:
  assumes "dead i q" "c \<in># waiting q"
  shows "dead i (resume_now c x (q \<lparr> waiting := waiting q - {#c#} \<rparr>))"
proof -
  have ne: "scope_of c \<noteq> Some i"
    using assms scope_count_pos[of c "waiting q" i] by (auto simp: dead_def)
  have r: "dead i (q \<lparr> waiting := waiting q - {#c#} \<rparr>)"
    using assms scope_count_remove[of c "waiting q" i] by (simp add: dead_def)
  show ?thesis
  proof (cases c)
    case (Transfered j)
    then show ?thesis using r ne
      by (simp add: transfered_def run_worker_def dead_ran_cb dead_store)
  next
    case (Ready j b)
    then show ?thesis using r ne
      by (simp add: backoff_ready_def run_worker_def Let_def dead_number dead_ranAgain)
  qed (use r in simp_all)
qed

lemma dead_resume:
  assumes "dead i q" "c \<in># waiting q"
  shows "dead i (resume c err (q \<lparr> waiting := waiting q - {#c#} \<rparr>))"
proof -
  have ne: "scope_of c \<noteq> Some i"
    using assms scope_count_pos[of c "waiting q" i] by (auto simp: dead_def)
  have r: "dead i (q \<lparr> waiting := waiting q - {#c#} \<rparr>)"
    using assms scope_count_remove[of c "waiting q" i] by (simp add: dead_def)
  show ?thesis
  proof (cases c)
    case Poke
    then show ?thesis using r
      by (auto simp: poke_def Let_def emit_def await_def split: option.splits)
         (auto simp: dead_def scope_count_add nth_append)
  next
    case (Transfered j)
    then show ?thesis using r ne
      by (auto simp: transfered_def run_worker_def emit_def await_def)
         (auto simp: dead_def scope_count_add)
  next
    case (Ran j)
    then show ?thesis using r ne by (simp add: dead_ran_cb)
  next
    case (RanAgain j b)
    then show ?thesis using r ne by (simp add: ranAgain_def dead_ran_cb dead_backoff_backoff)
  next
    case (DeletedPending j)
    then show ?thesis using r ne
      by (auto simp: deletedPending_def emit_def) (auto simp: dead_def)
  next
    case (Ready j b)
    then show ?thesis using r ne
      by (auto simp: backoff_ready_def run_worker_def Let_def await_def dead_def scope_count_add)
  qed (use r in \<open>auto simp: start_done_def push_put_def batchPush_put_def emit_def\<close>,
       auto simp: dead_def)
qed

lemma dead_step: "dead i q \<Longrightarrow> step e q = Some q' \<Longrightarrow> dead i q'"
  by (cases e)
     (auto simp: dead_resume dead_resume_now split: if_splits,
      auto simp: dead_def push_def batchPush_def await_def scope_count_add)

lemma dead_run: "dead i q \<Longrightarrow> run es q = Some q' \<Longrightarrow> dead i q'"
  by (induction es arbitrary: q) (auto split: option.splits dest: dead_step)

lemma dead_blocked:
  assumes "dead i q" "scope_of c = Some i"
  shows "step (Complete c err) q = None" "step (CompleteNow c err) q = None"
  using assms scope_count_pos[of c "waiting q" i] by (auto simp: dead_def)

lemma fail_branch:
  assumes "notifications (backoff_backoff i b q) = notifications q @ [x]" "b < length (backoffs q)"
  shows "concurrency (backoff_backoff i b q) = concurrency q"
    "pending (backoff_backoff i b q) = pending q"
    "needsDrain (backoff_backoff i b q) = needsDrain q"
    "waiting (backoff_backoff i b q) = waiting q"
    "scopes (backoff_backoff i b q) = scopes q"
    "spent b (backoff_backoff i b q)"
  using assms
  by (auto simp: backoff_backoff_def Let_def emit_def await_def spent_def split: if_splits)

text \<open>
  C8. Let the failure of a worker invocation make the queue emit \<open>max retries reached\<close>,
  in a state the queue can reach; the worker reports the failure after its invocation has
  returned (the completion of \<open>Ran\<close> or \<open>RanAgain\<close>) or inside the invocation of a retry
  (the completion of \<open>Ready\<close> with the reply). That step leaves the counter, the pending
  partition and \<open>needsDrain\<close> as they were. In every state the queue reaches afterwards, no
  callback of that job's scope can run: \<open>ran\<close>, which would decrement the counter and set
  \<open>needsDrain\<close>, and \<open>deletedPending\<close>, which follows the deletion of the entry, are not
  outstanding; the scope is never \<open>done\<close>; and the counter stays above the number of jobs
  that can still give a slot back, so the slot of the exhausted job is never returned.
\<close>

theorem exhausted_job_keeps_slot:
  assumes "run es (Queue w p a) = Some q"
    and "e = Complete (Ran i) err \<or> e = Complete (RanAgain i b) err
         \<or> e = CompleteNow (Ready i b) err"
    and "step e q = Some q1"
    and "notifications q1 = notifications q @ [ErrorEvent (Some MaxRetriesReached)]"
    and "run es' q1 = Some q2"
  shows "concurrency q1 = concurrency q \<and> pending q1 = pending q \<and> needsDrain q1 = needsDrain q
       \<and> (\<forall>c' err'. scope_of c' = Some i \<longrightarrow>
             step (Complete c' err') q2 = None \<and> step (CompleteNow c' err') q2 = None)
       \<and> \<not> p_done (scopes q2 ! i)
       \<and> slot_count (waiting q2) + 1 \<le> concurrency q2"
proof -
  obtain c where c: "c \<in># waiting q" and sc: "scope_of c = Some i"
    and nd: "c \<noteq> DeletedPending i"
    using assms(2,3) by (auto split: if_splits)
  have inv: "scopes_inv q"
    using scopes_inv_run[OF scopes_inv_init assms(1)] .
  have i: "i < length (scopes q)" and live: "\<not> p_done (scopes q ! i)"
    using reachable_running[OF assms(1) c sc] nd by auto
  have none: "scope_count i (waiting q - {#c#}) = 0"
    using one_inv_taken[OF _ c sc] inv by (simp add: scopes_inv_def)
  let ?q = "q \<lparr> waiting := waiting q - {#c#} \<rparr>"
  have "\<exists>b' q0 qf. qf = backoff_backoff i b' q0 \<and> b' < length (backoffs q0)
            \<and> notifications q0 = notifications q \<and> concurrency q0 = concurrency q
            \<and> pending q0 = pending q \<and> needsDrain q0 = needsDrain q
            \<and> waiting q0 = waiting q - {#c#} \<and> scopes q0 = scopes q
            \<and> (q1 = qf \<or> (\<exists>k. q1 = qf \<lparr> backoffs := (backoffs qf)[b' := (backoffs qf ! b')
                                          \<lparr> backoffNumber := k \<rparr>] \<rparr>))"
    using assms(2)
  proof (elim disjE)
    assume r: "e = Complete (Ran i) err"
    then have ci: "c = Ran i"
      using one_inv_unique[OF _ c _ sc, of "Ran i"] inv assms(3)
      by (auto simp: scopes_inv_def split: if_splits)
    have q1: "q1 = ran_cb i (map_option Err err) ?q"
      using assms(3) r ci by (auto split: if_splits)
    then obtain y where e: "err = Some y"
      using assms(4) by (cases err) (auto simp: ran_cb_def await_def split: if_splits)
    show ?thesis
      by (rule exI[of _ "length (backoffs q)"],
          rule exI[of _ "?q \<lparr> backoffs := backoffs q @
              [\<lparr> backoffNumber = 0, maxNumberOfRetry = maxRetries (q_options q),
                 failListener = True \<rparr>] \<rparr>"], rule exI[of _ q1])
         (use e q1 in \<open>simp add: ran_cb_def handleRunError_def\<close>)
  next
    assume r: "e = Complete (RanAgain i b) err"
    then have ci: "c = RanAgain i b"
      using one_inv_unique[OF _ c _ sc, of "RanAgain i b"] inv assms(3)
      by (auto simp: scopes_inv_def split: if_splits)
    have q1: "q1 = ranAgain i b (map_option Err err) ?q"
      using assms(3) r ci by (auto split: if_splits)
    then obtain y where e: "err = Some y"
      using assms(4) by (cases err) (auto simp: ranAgain_def ran_cb_def await_def split: if_splits)
    have "ids_ok (length (scopes q)) (length (backoffs q)) c"
      using inv c by (simp add: scopes_inv_def ids_inv_def)
    then have b: "b < length (backoffs q)"
      using ci by simp
    show ?thesis
      by (rule exI[of _ b], rule exI[of _ ?q], rule exI[of _ q1])
         (use e q1 b in \<open>simp add: ranAgain_def\<close>)
  next
    assume r: "e = CompleteNow (Ready i b) err"
    then have ci: "c = Ready i b"
      using one_inv_unique[OF _ c _ sc, of "Ready i b"] inv assms(3)
      by (auto simp: scopes_inv_def split: if_splits)
    have q1: "q1 = backoff_ready i b (Now (map_option Err err)) ?q"
      using assms(3) r ci by (auto split: if_splits)
    then obtain y where e: "err = Some y"
      using assms(4)
      by (cases err)
         (auto simp: backoff_ready_def run_worker_def Let_def ranAgain_def ran_cb_def await_def
               split: if_splits)
    have "ids_ok (length (scopes q)) (length (backoffs q)) c"
      using inv c by (simp add: scopes_inv_def ids_inv_def)
    then have b: "b < length (backoffs q)"
      using ci by simp
    show ?thesis
      by (rule exI[of _ b], rule exI[of _ ?q], rule exI[of _ "backoff_backoff i b ?q"])
         (use e q1 b in \<open>auto simp: backoff_ready_def run_worker_def Let_def ranAgain_def\<close>)
  qed
  then obtain b' q0 qf where q0: "qf = backoff_backoff i b' q0" "b' < length (backoffs q0)"
    "notifications q0 = notifications q" "concurrency q0 = concurrency q"
    "pending q0 = pending q" "needsDrain q0 = needsDrain q"
    "waiting q0 = waiting q - {#c#}" "scopes q0 = scopes q"
    and qf: "q1 = qf \<or> (\<exists>k. q1 = qf \<lparr> backoffs := (backoffs qf)[b' := (backoffs qf ! b')
                                          \<lparr> backoffNumber := k \<rparr>] \<rparr>)"
    by blast
  have n: "notifications (backoff_backoff i b' q0) = notifications q0 @ [ErrorEvent (Some MaxRetriesReached)]"
    using assms(4) q0 qf by auto
  note f = fail_branch[OF n q0(2)]
  have same: "concurrency q1 = concurrency q" "pending q1 = pending q" "needsDrain q1 = needsDrain q"
    using f q0 qf by auto
  have "dead i q1"
    using f q0 qf i live none by (auto simp: dead_def)
  then have d2: "dead i q2"
    using assms(5) by (rule dead_run)
  have "spent b' qf"
    using f(6) q0(1) by simp
  then have "spent b' q1"
    using qf spent_number[of b' qf b'] by auto
  then have "spent b' q2"
    using assms(5) by (rule spent_run)
  then have ex: "1 \<le> exhausted (backoffs q2)"
    by (rule spent_exhausted)
  have "conc_inv q1"
    using conc_inv_step[OF conc_inv_run[OF conc_inv_init assms(1)] assms(3)] .
  then have "conc_inv q2"
    using assms(5) by (rule conc_inv_run)
  then have "slot_count (waiting q2) + int (exhausted (backoffs q2)) \<le> concurrency q2"
    by (simp add: conc_inv_def slots_def)
  then have slot: "slot_count (waiting q2) + 1 \<le> concurrency q2"
    using ex by linarith
  show ?thesis
    using same d2 slot dead_blocked[OF d2] by (auto simp: dead_def)
qed

text \<open>
  An instance with \<open>maxConcurrency = 1\<close> and \<open>maxRetries = 1\<close>: job 1 fails twice; a job
  pushed afterwards is written to the work partition, but the counter stays at 1, no peek
  starts, and the jobs 2 and 3 are never dispatched.
\<close>

theorem exhausted_job_keeps_slot_witness:
  "\<exists>q q1 q2.
      run [Complete StartDone None, Complete Poke None, Complete (Transfered 0) None,
           Complete (Ran 0) (Some ''boom''), Complete (Ready 0 0) None]
        (Queue [(''1'', ''a''), (''2'', ''b'')] []
           (OptObject \<lparr> opt_maxConcurrency = Some 1, opt_maxRetries = Some 1, opt_backoff = None \<rparr>))
        = Some q
    \<and> step (Complete (RanAgain 0 0) (Some ''boom'')) q = Some q1
    \<and> notifications q1 = notifications q @ [ErrorEvent (Some MaxRetriesReached)]
    \<and> run [CallPush ''3'' ''c'' False, Complete (PushPut ''3'' ''c'' False) None] q1 = Some q2
    \<and> concurrency q1 = concurrency q \<and> pending q1 = pending q \<and> needsDrain q1 = needsDrain q
    \<and> step (Complete (RanAgain 0 0) None) q2 = None
    \<and> step (Complete (DeletedPending 0) None) q2 = None
    \<and> \<not> p_done (scopes q2 ! 0)
    \<and> slot_count (waiting q2) + 1 \<le> concurrency q2
    \<and> concurrency q2 = 1 \<and> waiting q2 = {#} \<and> keys (work q2) = {''3'', ''2''}"
proof -
  let ?Q = "Queue [(''1'', ''a''), (''2'', ''b'')] []
           (OptObject \<lparr> opt_maxConcurrency = Some 1, opt_maxRetries = Some 1, opt_backoff = None \<rparr>)"
  have "\<exists>q q1 q2.
      run [Complete StartDone None, Complete Poke None, Complete (Transfered 0) None,
           Complete (Ran 0) (Some ''boom''), Complete (Ready 0 0) None] ?Q = Some q
    \<and> step (Complete (RanAgain 0 0) (Some ''boom'')) q = Some q1
    \<and> notifications q1 = notifications q @ [ErrorEvent (Some MaxRetriesReached)]
    \<and> run [CallPush ''3'' ''c'' False, Complete (PushPut ''3'' ''c'' False) None] q1 = Some q2
    \<and> concurrency q2 = 1 \<and> waiting q2 = {#} \<and> keys (work q2) = {''3'', ''2''}"
    by (simp add: eval_defs)
  then obtain q q1 q2 where
    r: "run [Complete StartDone None, Complete Poke None, Complete (Transfered 0) None,
           Complete (Ran 0) (Some ''boom''), Complete (Ready 0 0) None] ?Q = Some q"
    and s: "step (Complete (RanAgain 0 0) (Some ''boom'')) q = Some q1"
    and n: "notifications q1 = notifications q @ [ErrorEvent (Some MaxRetriesReached)]"
    and l: "run [CallPush ''3'' ''c'' False, Complete (PushPut ''3'' ''c'' False) None] q1 = Some q2"
    and v: "concurrency q2 = 1" "waiting q2 = {#}" "keys (work q2) = {''3'', ''2''}"
    by (elim exE conjE) (rule that; assumption)
  have c: "Complete (RanAgain 0 0) (Some ''boom'') = Complete (Ran 0) (Some ''boom'')
         \<or> Complete (RanAgain 0 0) (Some ''boom'') = Complete (RanAgain 0 0) (Some ''boom'')
         \<or> Complete (RanAgain 0 0) (Some ''boom'') = CompleteNow (Ready 0 0) (Some ''boom'')"
    by simp
  note t = exhausted_job_keeps_slot[OF r c s n l]
  note t1 = t[THEN conjunct1]
  note t2 = t[THEN conjunct2, THEN conjunct1]
  note t3 = t[THEN conjunct2, THEN conjunct2, THEN conjunct1]
  note t4 = t[THEN conjunct2, THEN conjunct2, THEN conjunct2, THEN conjunct1, rule_format,
      THEN conjunct1]
  note t5 = t[THEN conjunct2, THEN conjunct2, THEN conjunct2, THEN conjunct2, THEN conjunct1]
  note t6 = t[THEN conjunct2, THEN conjunct2, THEN conjunct2, THEN conjunct2, THEN conjunct2]
  have b: "step (Complete (RanAgain 0 0) None) q2 = None"
    "step (Complete (DeletedPending 0) None) q2 = None"
    by (rule t4, simp)+
  note o = t1 t2 t3 t5 t6
  show ?thesis
    by (intro exI[of _ q] exI[of _ q1] exI[of _ q2] conjI r s n l o b v)
qed

subsection \<open>One continuation for every backoff object\<close>

lemma backoff_count_add:
  "backoff_count b (add_mset c M) = backoff_count b M + (if backoff_of c = Some b then 1 else 0)"
  by (simp add: backoff_count_def)

lemma backoff_count_remove:
  "c \<in># M \<Longrightarrow>
   backoff_count b (M - {#c#}) = backoff_count b M - (if backoff_of c = Some b then 1 else 0)"
  using backoff_count_add[of b c "M - {#c#}"] by simp

lemma backoff_count_pos: "c \<in># M \<Longrightarrow> backoff_of c = Some b \<Longrightarrow> 1 \<le> backoff_count b M"
  using backoff_count_add[of b c "M - {#c#}"] by simp

lemma backoff_count_fresh:
  assumes "\<forall>c \<in># M. ids_ok n m c" shows "backoff_count m M = 0"
proof -
  have "backoff_of c \<noteq> Some m" if "c \<in># M" for c
    using assms that by (cases c) auto
  then show ?thesis
    by (auto simp: backoff_count_def)
qed

lemma backoff_inv_unique:
  assumes "backoff_inv q" "c \<in># waiting q" "c' \<in># waiting q"
    "backoff_of c = Some b" "backoff_of c' = Some b"
  shows "c' = c"
proof (rule ccontr)
  assume "c' \<noteq> c"
  then have "c' \<in># waiting q - {#c#}"
    using assms(3) by (simp add: in_diff_count)
  then have "1 \<le> backoff_count b (waiting q - {#c#})"
    using assms(5) by (rule backoff_count_pos)
  moreover have "backoff_count b (waiting q - {#c#}) = backoff_count b (waiting q) - 1"
    using backoff_count_remove[OF assms(2), of b] assms(4) by simp
  moreover have "backoff_count b (waiting q) \<le> 1"
    using assms(1) by (simp add: backoff_inv_def)
  ultimately show False by simp
qed

lemma backoff_inv_taken:
  assumes "backoff_inv q" "c \<in># waiting q" "backoff_of c = Some b"
  shows "backoff_count b (waiting q - {#c#}) = 0"
proof -
  have "backoff_count b (waiting q) \<le> 1"
    using assms(1) by (simp add: backoff_inv_def)
  then show ?thesis
    using backoff_count_remove[OF assms(2), of b] assms(3) by simp
qed

lemma backoff_inv_flush: "backoff_inv q \<Longrightarrow> backoff_inv (flush q)"
  by (auto simp: backoff_inv_def flush_def await_def backoff_count_add)

lemma backoff_inv_maybeFlush: "backoff_inv q \<Longrightarrow> backoff_inv (maybeFlush q)"
  using backoff_inv_flush by (auto simp: maybeFlush_def) (auto simp: backoff_inv_def)

lemma backoff_inv_init: "backoff_inv (Queue w p a)"
  by (simp add: backoff_inv_def Queue_def backoff_count_def)

lemma backoff_inv_backoff_backoff:
  assumes "backoff_inv q" "backoff_count b (waiting q) = 0"
  shows "backoff_inv (backoff_backoff i b q)"
  using assms
  by (auto simp: backoff_inv_def backoff_backoff_def Let_def emit_def await_def backoff_count_add)

lemma backoff_inv_ran_cb:
  assumes "backoff_inv q" "ids_inv q"
  shows "backoff_inv (ran_cb i err q)"
proof -
  have "backoff_count (length (backoffs q)) (waiting q) = 0"
    using assms(2) backoff_count_fresh[of "waiting q"] by (auto simp: ids_inv_def)
  then show ?thesis
    using assms(1)
    by (auto simp: ran_cb_def handleRunError_def await_def intro!: backoff_inv_backoff_backoff)
       (auto simp: backoff_inv_def backoff_count_add)
qed

lemma backoff_inv_ranAgain:
  assumes "backoff_inv q" "ids_inv q" "backoff_count b (waiting q) = 0"
  shows "backoff_inv (ranAgain i b err q)"
  using assms by (simp add: ranAgain_def backoff_inv_ran_cb backoff_inv_backoff_backoff)

lemma backoff_inv_number: "backoff_inv q \<Longrightarrow> backoff_inv (q \<lparr> backoffs := bs \<rparr>)"
  by (simp add: backoff_inv_def)

lemma backoff_inv_resume:
  assumes "backoff_inv q" "ids_inv q" "c \<in># waiting q"
  shows "backoff_inv (resume c err (q \<lparr> waiting := waiting q - {#c#} \<rparr>))"
proof -
  have r: "\<And>j. backoff_count j (waiting q - {#c#}) \<le> 1"
    using assms(1,3) backoff_count_remove[OF assms(3)]
    by (auto simp: backoff_inv_def intro: le_trans[OF diff_le_self])
  have r': "backoff_inv (q \<lparr> waiting := waiting q - {#c#} \<rparr>)"
    using r by (simp add: backoff_inv_def)
  have ids: "ids_inv (q \<lparr> waiting := waiting q - {#c#} \<rparr>)"
    using assms(2) by (rule ids_inv_remove)
  have t: "\<And>b. backoff_of c = Some b \<Longrightarrow> backoff_count b (waiting q - {#c#}) = 0"
    using backoff_inv_taken[OF assms(1,3)] by blast
  show ?thesis
  proof (cases c)
    case StartDone
    then show ?thesis using r'
      by (auto simp: start_done_def intro!: backoff_inv_maybeFlush) (auto simp: backoff_inv_def)
  next
    case (PushPut k v cb)
    then show ?thesis using r'
      by (auto simp: push_put_def emit_def intro!: backoff_inv_maybeFlush)
         (auto simp: backoff_inv_def)
  next
    case (BatchPut kvs cb)
    then show ?thesis using r'
      by (auto simp: batchPush_put_def emit_def intro!: backoff_inv_maybeFlush)
         (auto simp: backoff_inv_def)
  next
    case Poke
    then show ?thesis using r'
      by (auto simp: poke_def Let_def emit_def await_def split: option.splits
               intro!: backoff_inv_maybeFlush)
         (auto simp: backoff_inv_def backoff_count_add)
  next
    case (Transfered i)
    then show ?thesis using r'
      by (auto simp: transfered_def run_worker_def emit_def await_def intro!: backoff_inv_flush)
         (auto simp: backoff_inv_def backoff_count_add)
  next
    case (Ran i)
    then show ?thesis using r' ids by (simp add: backoff_inv_ran_cb)
  next
    case (RanAgain i b)
    then show ?thesis using r' ids t[of b] by (simp add: backoff_inv_ranAgain)
  next
    case (DeletedPending i)
    then show ?thesis using r'
      by (auto simp: deletedPending_def emit_def intro!: backoff_inv_flush)
         (auto simp: backoff_inv_def)
  next
    case (Ready i b)
    then show ?thesis using r' t[of b]
      by (auto simp: backoff_ready_def run_worker_def Let_def await_def backoff_inv_def
            backoff_count_add)
  qed
qed

lemma backoff_inv_resume_now:
  assumes "backoff_inv q" "ids_inv q" "c \<in># waiting q"
  shows "backoff_inv (resume_now c x (q \<lparr> waiting := waiting q - {#c#} \<rparr>))"
proof -
  have r: "\<And>j. backoff_count j (waiting q - {#c#}) \<le> 1"
    using assms(1,3) backoff_count_remove[OF assms(3)]
    by (auto simp: backoff_inv_def intro: le_trans[OF diff_le_self])
  have r': "backoff_inv (q \<lparr> waiting := waiting q - {#c#} \<rparr>)"
    using r by (simp add: backoff_inv_def)
  have ids: "ids_inv (q \<lparr> waiting := waiting q - {#c#} \<rparr>)"
    using assms(2) by (rule ids_inv_remove)
  have t: "\<And>b. backoff_of c = Some b \<Longrightarrow> backoff_count b (waiting q - {#c#}) = 0"
    using backoff_inv_taken[OF assms(1,3)] by blast
  show ?thesis
  proof (cases c)
    case (Transfered i)
    then show ?thesis using r' ids
      by (auto simp: transfered_def run_worker_def intro!: backoff_inv_flush backoff_inv_ran_cb)
         (auto simp: backoff_inv_def ids_inv_def)
  next
    case (Ready i b)
    then show ?thesis using r' ids t[of b]
      by (auto simp: backoff_ready_def run_worker_def Let_def
               intro!: backoff_inv_number backoff_inv_ranAgain)
  qed (use r' in simp_all)
qed

lemma backoff_inv_step:
  assumes "backoff_inv q" "ids_inv q" "step e q = Some q'"
  shows "backoff_inv q'"
proof (cases e)
  case (Complete c err)
  then show ?thesis
    using assms backoff_inv_resume[of q c "map_option Err err"] by (auto split: if_splits)
next
  case (CompleteNow c x)
  then show ?thesis
    using assms backoff_inv_resume_now[of q c "map_option Err x"] by (auto split: if_splits)
next
  case (CallPush k v cb)
  then show ?thesis
    using assms by (auto simp: push_def await_def backoff_inv_def backoff_count_add)
next
  case (CallBatchPush kvs cb)
  then show ?thesis
    using assms by (auto simp: batchPush_def await_def backoff_inv_def backoff_count_add)
qed

lemma backoff_inv_run:
  "backoff_inv q \<Longrightarrow> scopes_inv q \<Longrightarrow> run es q = Some q' \<Longrightarrow> backoff_inv q'"
proof (induction es arbitrary: q)
  case Nil
  then show ?case by simp
next
  case (Cons e es)
  then obtain q1 where s: "step e q = Some q1" and r: "run es q1 = Some q'"
    by (auto split: option.splits)
  have "backoff_inv q1"
    using backoff_inv_step[OF Cons.prems(1) _ s] Cons.prems(2) by (simp add: scopes_inv_def)
  then show ?case
    using Cons.IH[OF _ scopes_inv_step[OF Cons.prems(2) s] r] by simp
qed

subsection \<open>Steps of other jobs\<close>

lemma scope_count_of_scope: "scope_count i M = size (of_scope i M)"
  by (simp add: scope_count_def)

lemma of_scope_handlers [simp]:
  "of_scope i (waiting (flush q)) = of_scope i (waiting q)"
  "of_scope i (waiting (maybeFlush q)) = of_scope i (waiting q)"
  "of_scope i (waiting (start_done q)) = of_scope i (waiting q)"
  "of_scope i (waiting (push_put cb err q)) = of_scope i (waiting q)"
  "of_scope i (waiting (batchPush_put ks cb err q)) = of_scope i (waiting q)"
  "of_scope i (waiting (deletedPending j err q)) = of_scope i (waiting q)"
  "of_scope i (waiting (push k v cb q)) = of_scope i (waiting q)"
  "of_scope i (waiting (batchPush kvs cb q)) = of_scope i (waiting q)"
  by (simp_all add: flush_def maybeFlush_def start_done_def push_put_def batchPush_put_def
        deletedPending_def push_def batchPush_def emit_def await_def)

lemma of_scope_backoff_backoff:
  "j \<noteq> i \<Longrightarrow> of_scope i (waiting (backoff_backoff j b q)) = of_scope i (waiting q)"
  by (simp add: backoff_backoff_def Let_def emit_def await_def)

lemma of_scope_ran_cb:
  "j \<noteq> i \<Longrightarrow> of_scope i (waiting (ran_cb j err q)) = of_scope i (waiting q)"
  by (simp add: ran_cb_def handleRunError_def of_scope_backoff_backoff await_def)

lemma of_scope_ranAgain:
  "j \<noteq> i \<Longrightarrow> of_scope i (waiting (ranAgain j b err q)) = of_scope i (waiting q)"
  by (simp add: ranAgain_def of_scope_ran_cb of_scope_backoff_backoff)

lemma of_scope_transfered:
  "j \<noteq> i \<Longrightarrow> of_scope i (waiting (transfered j err r q)) = of_scope i (waiting q)"
  by (simp add: transfered_def run_worker_def of_scope_ran_cb emit_def await_def split: reply.splits)

lemma of_scope_backoff_ready:
  "j \<noteq> i \<Longrightarrow> of_scope i (waiting (backoff_ready j b r q)) = of_scope i (waiting q)"
  by (simp add: backoff_ready_def run_worker_def Let_def of_scope_ranAgain await_def
           split: reply.splits)

lemma of_scope_poke:
  "i < length (scopes q) \<Longrightarrow> of_scope i (waiting (poke err f q)) = of_scope i (waiting q)"
  by (simp add: poke_def Let_def emit_def await_def split: option.splits)

lemma scopes_handlers [simp]:
  "scopes (flush q) = scopes q"
  "scopes (maybeFlush q) = scopes q"
  "scopes (start_done q) = scopes q"
  "scopes (push_put cb err q) = scopes q"
  "scopes (batchPush_put ks cb err q) = scopes q"
  "scopes (deletedPending j err q) = scopes q"
  "scopes (push k v cb q) = scopes q"
  "scopes (batchPush kvs cb q) = scopes q"
  "scopes (backoff_backoff j b q) = scopes q"
  by (simp_all add: flush_def maybeFlush_def start_done_def push_put_def batchPush_put_def
        deletedPending_def push_def batchPush_def backoff_backoff_def Let_def emit_def await_def)

lemma scopes_ran_cb:
  "length (scopes (ran_cb j err q)) = length (scopes q)"
  "j \<noteq> i \<Longrightarrow> scopes (ran_cb j err q) ! i = scopes q ! i"
  by (simp_all add: ran_cb_def handleRunError_def await_def)

lemma scopes_ranAgain:
  "length (scopes (ranAgain j b err q)) = length (scopes q)"
  "j \<noteq> i \<Longrightarrow> scopes (ranAgain j b err q) ! i = scopes q ! i"
  by (simp_all add: ranAgain_def scopes_ran_cb)

lemma scopes_transfered:
  "length (scopes (transfered j err r q)) = length (scopes q)"
  "j \<noteq> i \<Longrightarrow> scopes (transfered j err r q) ! i = scopes q ! i"
  by (simp_all add: transfered_def run_worker_def scopes_ran_cb emit_def await_def
        split: reply.splits)

lemma scopes_backoff_ready:
  "length (scopes (backoff_ready j b r q)) = length (scopes q)"
  "j \<noteq> i \<Longrightarrow> scopes (backoff_ready j b r q) ! i = scopes q ! i"
  by (simp_all add: backoff_ready_def run_worker_def Let_def scopes_ranAgain await_def
        split: reply.splits)

lemma scopes_poke:
  "length (scopes q) \<le> length (scopes (poke err f q))"
  "i < length (scopes q) \<Longrightarrow> scopes (poke err f q) ! i = scopes q ! i"
  by (simp_all add: poke_def Let_def emit_def await_def nth_append split: option.splits)

lemma other_step:
  assumes "step e q = Some q'" "event_scope e \<noteq> Some i" "i < length (scopes q)"
  shows "of_scope i (waiting q') = of_scope i (waiting q)"
    and "scopes q' ! i = scopes q ! i"
    and "i < length (scopes q')"
proof -
  have "of_scope i (waiting q') = of_scope i (waiting q) \<and> scopes q' ! i = scopes q ! i
      \<and> i < length (scopes q')"
  proof (cases e)
    case (CallPush k v cb)
    then show ?thesis using assms by auto
  next
    case (CallBatchPush kvs cb)
    then show ?thesis using assms by auto
  next
    case (Complete c err)
    then have c: "c \<in># waiting q" "scope_of c \<noteq> Some i"
      and q': "q' = resume c (map_option Err err) (q \<lparr> waiting := waiting q - {#c#} \<rparr>)"
      using assms by (auto split: if_splits)
    show ?thesis
      using c(2) assms(3) unfolding q'
      by (cases c)
         (simp_all add: of_scope_ran_cb of_scope_ranAgain of_scope_transfered
            of_scope_backoff_ready of_scope_poke scopes_ran_cb scopes_ranAgain
            scopes_transfered scopes_backoff_ready scopes_poke
            less_le_trans[OF _ scopes_poke(1)])
  next
    case (CompleteNow c x)
    then have c: "c \<in># waiting q" "scope_of c \<noteq> Some i"
      and q': "q' = resume_now c (map_option Err x) (q \<lparr> waiting := waiting q - {#c#} \<rparr>)"
      using assms by (auto split: if_splits)
    show ?thesis
      using c(2) assms(3) unfolding q'
      by (cases c)
         (simp_all add: of_scope_transfered of_scope_backoff_ready
            scopes_transfered scopes_backoff_ready)
  qed
  then show "of_scope i (waiting q') = of_scope i (waiting q)"
    and "scopes q' ! i = scopes q ! i"
    and "i < length (scopes q')"
    by simp_all
qed

lemma backoffs_handlers [simp]:
  "backoffs (start_done q) = backoffs q"
  "backoffs (push_put cb err q) = backoffs q"
  "backoffs (batchPush_put ks cb err q) = backoffs q"
  "backoffs (deletedPending j err q) = backoffs q"
  "backoffs (push k v cb q) = backoffs q"
  "backoffs (batchPush kvs cb q) = backoffs q"
  "backoffs (poke err' f q) = backoffs q"
  by (simp_all add: start_done_def push_put_def batchPush_put_def deletedPending_def push_def
        batchPush_def poke_def Let_def emit_def await_def split: option.splits)

lemma backoffs_backoff_backoff:
  "length (backoffs (backoff_backoff j b' q)) = length (backoffs q)"
  "b' \<noteq> b \<Longrightarrow> backoffs (backoff_backoff j b' q) ! b = backoffs q ! b"
  by (simp_all add: backoff_backoff_def Let_def emit_def await_def)

lemma backoffs_ran_cb:
  "b < length (backoffs q) \<Longrightarrow> backoffs (ran_cb j err q) ! b = backoffs q ! b"
  by (simp add: ran_cb_def handleRunError_def backoffs_backoff_backoff nth_append await_def)

lemma backoffs_ranAgain:
  "b' \<noteq> b \<Longrightarrow> b < length (backoffs q) \<Longrightarrow> backoffs (ranAgain j b' err q) ! b = backoffs q ! b"
  by (simp add: ranAgain_def backoffs_ran_cb backoffs_backoff_backoff)

lemma backoffs_transfered:
  "b < length (backoffs q) \<Longrightarrow> backoffs (transfered j err r q) ! b = backoffs q ! b"
  by (simp add: transfered_def run_worker_def backoffs_ran_cb emit_def await_def
           split: reply.splits)

lemma backoffs_backoff_ready:
  "b' \<noteq> b \<Longrightarrow> b < length (backoffs q) \<Longrightarrow>
   backoffs (backoff_ready j b' r q) ! b = backoffs q ! b"
  by (simp add: backoff_ready_def run_worker_def Let_def backoffs_ranAgain await_def
           split: reply.splits)

lemma other_step_backoff:
  assumes "step e q = Some q'" "event_scope e \<noteq> Some i" "backoff_inv q"
    and "c0 \<in># waiting q" "scope_of c0 = Some i" "backoff_of c0 = Some b"
    and "b < length (backoffs q)"
  shows "backoffs q' ! b = backoffs q ! b"
proof (cases e)
  case (CallPush k v cb)
  then show ?thesis using assms by auto
next
  case (CallBatchPush kvs cb)
  then show ?thesis using assms by auto
next
  case (Complete c err)
  then have c: "c \<in># waiting q" "scope_of c \<noteq> Some i"
    and q': "q' = resume c (map_option Err err) (q \<lparr> waiting := waiting q - {#c#} \<rparr>)"
    using assms by (auto split: if_splits)
  have nb: "backoff_of c \<noteq> Some b"
    using backoff_inv_unique[OF assms(3,4) c(1) assms(6)] c(2) assms(5) by auto
  show ?thesis
    using nb assms(7) unfolding q'
    by (cases c)
       (simp_all add: backoffs_ran_cb backoffs_ranAgain backoffs_transfered
          backoffs_backoff_ready)
next
  case (CompleteNow c x)
  then have c: "c \<in># waiting q" "scope_of c \<noteq> Some i"
    and q': "q' = resume_now c (map_option Err x) (q \<lparr> waiting := waiting q - {#c#} \<rparr>)"
    using assms by (auto split: if_splits)
  have nb: "backoff_of c \<noteq> Some b"
    using backoff_inv_unique[OF assms(3,4) c(1) assms(6)] c(2) assms(5) by auto
  show ?thesis
    using nb assms(7) unfolding q'
    by (cases c) (simp_all add: backoffs_transfered backoffs_backoff_ready)
qed

lemma of_scope_mem:
  assumes "of_scope i M' = of_scope i M" "scope_of c = Some i"
  shows "c \<in># M' \<longleftrightarrow> c \<in># M"
proof -
  have "c \<in># of_scope i M' \<longleftrightarrow> c \<in># of_scope i M"
    using assms(1) by simp
  then show ?thesis
    using assms(2) by simp
qed

lemma in_phase_other_step:
  assumes "step e q = Some q'" "event_scope e \<noteq> Some i" "backoff_inv q" "scopes_inv q"
    and "in_phase i n f q"
  shows "in_phase i n f q'"
proof -
  have i: "i < length (scopes q)" and live: "\<not> p_done (scopes q ! i)"
    using assms(5) by (simp_all add: in_phase_def)
  note o = other_step[OF assms(1,2) i]
  have mem: "c \<in># waiting q' \<longleftrightarrow> c \<in># waiting q" if "scope_of c = Some i" for c
    using of_scope_mem[OF o(1) that] .
  have ids': "ids_inv q'"
    using scopes_inv_step[OF assms(4,1)] by (simp add: scopes_inv_def)
  from assms(5) consider "f = 0" "Ran i \<in># waiting q" | b where "retrying i n f b q"
    by (auto simp: in_phase_def)
  then show ?thesis
  proof cases
    case 1
    then show ?thesis
      using o live mem[of "Ran i"] by (simp add: in_phase_def)
  next
    case 2
    then obtain c0 where c0: "c0 \<in># waiting q" "c0 = Ready i b \<or> c0 = RanAgain i b"
      by (auto simp: retrying_def)
    then have sc: "scope_of c0 = Some i" "backoff_of c0 = Some b"
      by auto
    have b: "b < length (backoffs q)"
      using 2 by (simp add: retrying_def)
    have same: "backoffs q' ! b = backoffs q ! b"
      using other_step_backoff[OF assms(1,2,3) c0(1) sc b] .
    have "c0 \<in># waiting q'"
      using mem[OF sc(1)] c0(1) by simp
    then have "ids_ok (length (scopes q')) (length (backoffs q')) c0"
      using ids' by (simp add: ids_inv_def)
    then have b': "b < length (backoffs q')"
      using c0(2) by auto
    have "retrying i n f b q'"
      using 2 same b' mem[of "Ready i b"] mem[of "RanAgain i b"] by (simp add: retrying_def)
    then show ?thesis
      using o live by (auto simp: in_phase_def)
  qed
qed

lemma succeeded_other_step:
  assumes "step e q = Some q'" "event_scope e \<noteq> Some i" "succeeded i q"
  shows "succeeded i q'" "DeletedPending i \<in># waiting q' \<longleftrightarrow> DeletedPending i \<in># waiting q"
proof -
  have i: "i < length (scopes q)"
    using assms(3) by (simp add: succeeded_def)
  note o = other_step[OF assms(1,2) i]
  have mem: "c \<in># waiting q' \<longleftrightarrow> c \<in># waiting q" if "scope_of c = Some i" for c
    using of_scope_mem[OF o(1) that] .
  show "succeeded i q'"
    using assms(3) o mem by (auto simp: succeeded_def)
  show "DeletedPending i \<in># waiting q' \<longleftrightarrow> DeletedPending i \<in># waiting q"
    using mem[of "DeletedPending i"] by simp
qed

subsection \<open>Steps of the job\<close>

lemma own_event:
  assumes "one_inv q" "c0 \<in># waiting q" "scope_of c0 = Some i"
    and "step e q = Some q'" "event_scope e = Some i"
  shows "e = Complete c0 None \<or> (\<exists>y. e = Complete c0 (Some y))
       \<or> (invokes_worker c0 \<and> (\<exists>x. e = CompleteNow c0 x))"
proof (cases e)
  case (Complete c x)
  then have "c \<in># waiting q" "scope_of c = Some i"
    using assms(4,5) by (auto split: if_splits)
  then have "c = c0"
    using one_inv_unique[OF assms(1,2) _ assms(3)] by simp
  then show ?thesis
    using Complete by (cases x) auto
next
  case (CompleteNow c x)
  then have "c \<in># waiting q" "scope_of c = Some i" "invokes_worker c"
    using assms(4,5) by (auto split: if_splits)
  moreover from this have "c = c0"
    using one_inv_unique[OF assms(1,2) _ assms(3)] by simp
  ultimately show ?thesis
    using CompleteNow by auto
qed (use assms(5) in simp_all)

lemma step_first_success:
  assumes "scopes_inv q" "Ran i \<in># waiting q" "i < length (scopes q)" "\<not> p_done (scopes q ! i)"
    and "step (Complete (Ran i) None) q = Some q'"
  shows "succeeded i q'" "DeletedPending i \<in># waiting q'"
    "notifications q' = notifications q" "concurrency q' = concurrency q - 1"
    "pending q' = pending q" "p_key (scopes q' ! i) = p_key (scopes q ! i)"
proof -
  have q': "q' = q \<lparr> waiting := add_mset (DeletedPending i) (waiting q - {#Ran i#}),
               scopes := (scopes q)[i := (scopes q ! i) \<lparr> p_done := True \<rparr>],
               needsDrain := True,
               concurrency := concurrency q - 1 \<rparr>"
    using assms(2-5) by (auto simp: ran_cb_def await_def)
  have others: "\<And>c'. c' \<in># waiting q - {#Ran i#} \<Longrightarrow> scope_of c' \<noteq> Some i"
    using one_inv_others[OF _ assms(2), of i] assms(1) by (simp add: scopes_inv_def)
  show "succeeded i q'"
    using assms(3) others by (auto simp: q' succeeded_def)
  show "DeletedPending i \<in># waiting q'" "notifications q' = notifications q"
    "concurrency q' = concurrency q - 1" "pending q' = pending q"
    "p_key (scopes q' ! i) = p_key (scopes q ! i)"
    using assms(3) by (simp_all add: q')
qed

lemma step_first_failure:
  assumes "Ran i \<in># waiting q" "i < length (scopes q)" "\<not> p_done (scopes q ! i)"
    and "maxRetries (q_options q) = n" "0 < n"
    and "step (Complete (Ran i) (Some y)) q = Some q'"
  shows "in_phase i n 1 q'"
    "notifications q' = notifications q" "concurrency q' = concurrency q"
    "pending q' = pending q" "p_key (scopes q' ! i) = p_key (scopes q ! i)"
proof -
  have q': "q' = q \<lparr> waiting := add_mset (Ready i (length (backoffs q))) (waiting q - {#Ran i#}),
                     backoffs := backoffs q @
                       [\<lparr> backoffNumber = 0, maxNumberOfRetry = maxRetries (q_options q),
                          failListener = True \<rparr>] \<rparr>"
    using first_failure[OF assms(1), of y] assms(4,5,6) by simp
  have "retrying i n 1 (length (backoffs q)) q'"
    using assms(4,5) by (simp add: q' retrying_def)
  then show "in_phase i n 1 q'"
    using assms(2,3) by (auto simp: q' in_phase_def)
  show "notifications q' = notifications q" "concurrency q' = concurrency q"
    "pending q' = pending q" "p_key (scopes q' ! i) = p_key (scopes q ! i)"
    by (simp_all add: q')
qed

lemma step_timer:
  assumes "Ready i b \<in># waiting q" "i < length (scopes q)" "\<not> p_done (scopes q ! i)"
    and "retrying i n f b q" "f = Suc (backoffNumber (backoffs q ! b))"
    and "step (Complete (Ready i b) x) q = Some q'"
  shows "in_phase i n f q'"
    "notifications q' = notifications q" "concurrency q' = concurrency q"
    "pending q' = pending q" "p_key (scopes q' ! i) = p_key (scopes q ! i)"
proof -
  have b: "b < length (backoffs q)"
    using assms(4) by (simp add: retrying_def)
  have q': "q' = q \<lparr> waiting := add_mset (RanAgain i b) (waiting q - {#Ready i b#}),
                     backoffs := (backoffs q)[b := (backoffs q ! b)
                        \<lparr> backoffNumber := Suc (backoffNumber (backoffs q ! b)) \<rparr>] \<rparr>"
    using assms(1,6) by (simp add: backoff_ready_def run_worker_def Let_def await_def)
  have "retrying i n f b q'"
    using assms(4,5) b by (simp add: q' retrying_def)
  then show "in_phase i n f q'"
    using assms(2,3) by (auto simp: q' in_phase_def)
  show "notifications q' = notifications q" "concurrency q' = concurrency q"
    "pending q' = pending q" "p_key (scopes q' ! i) = p_key (scopes q ! i)"
    by (simp_all add: q')
qed

lemma step_retry_success:
  assumes "scopes_inv q" "RanAgain i b \<in># waiting q" "i < length (scopes q)"
    "\<not> p_done (scopes q ! i)"
    and "step (Complete (RanAgain i b) None) q = Some q'"
  shows "succeeded i q'" "DeletedPending i \<in># waiting q'"
    "notifications q' = notifications q" "concurrency q' = concurrency q - 1"
    "pending q' = pending q" "p_key (scopes q' ! i) = p_key (scopes q ! i)"
proof -
  have q': "q' = q \<lparr> waiting := add_mset (DeletedPending i) (waiting q - {#RanAgain i b#}),
               scopes := (scopes q)[i := (scopes q ! i) \<lparr> p_done := True \<rparr>],
               needsDrain := True,
               concurrency := concurrency q - 1 \<rparr>"
    using assms(2-5) by (auto simp: ranAgain_def ran_cb_def await_def)
  have others: "\<And>c'. c' \<in># waiting q - {#RanAgain i b#} \<Longrightarrow> scope_of c' \<noteq> Some i"
    using one_inv_others[OF _ assms(2), of i] assms(1) by (simp add: scopes_inv_def)
  show "succeeded i q'"
    using assms(3) others by (auto simp: q' succeeded_def)
  show "DeletedPending i \<in># waiting q'" "notifications q' = notifications q"
    "concurrency q' = concurrency q - 1" "pending q' = pending q"
    "p_key (scopes q' ! i) = p_key (scopes q ! i)"
    using assms(3) by (simp_all add: q')
qed

lemma step_retry_failure:
  assumes "RanAgain i b \<in># waiting q" "i < length (scopes q)" "\<not> p_done (scopes q ! i)"
    and "retrying i n f b q" "f = backoffNumber (backoffs q ! b)" "f < n"
    and "step (Complete (RanAgain i b) (Some y)) q = Some q'"
  shows "in_phase i n (Suc f) q'"
    "notifications q' = notifications q" "concurrency q' = concurrency q"
    "pending q' = pending q" "p_key (scopes q' ! i) = p_key (scopes q ! i)"
proof -
  have b: "b < length (backoffs q)" "maxNumberOfRetry (backoffs q ! b) = n"
    using assms(4) by (simp_all add: retrying_def)
  have q': "q' = q \<lparr> waiting := add_mset (Ready i b) (waiting q - {#RanAgain i b#}) \<rparr>"
    using assms(1,5,6,7) b by (simp add: ranAgain_def backoff_backoff_def Let_def await_def)
  have "retrying i n (Suc f) b q'"
    using assms(4,5,6) b by (simp add: q' retrying_def)
  then show "in_phase i n (Suc f) q'"
    using assms(2,3) by (auto simp: q' in_phase_def)
  show "notifications q' = notifications q" "concurrency q' = concurrency q"
    "pending q' = pending q" "p_key (scopes q' ! i) = p_key (scopes q ! i)"
    by (simp_all add: q')
qed

lemma step_last_failure:
  assumes "scopes_inv q" "RanAgain i b \<in># waiting q" "i < length (scopes q)"
    "\<not> p_done (scopes q ! i)"
    and "retrying i n f b q" "f = backoffNumber (backoffs q ! b)" "f = n"
    and "step (Complete (RanAgain i b) (Some y)) q = Some q'"
  shows "dead i q'"
    "notifications q' = notifications q @ [ErrorEvent (Some MaxRetriesReached)]"
    "concurrency q' = concurrency q"
    "pending q' = pending q"
proof -
  have b: "b < length (backoffs q)" "maxNumberOfRetry (backoffs q ! b) = n"
    "failListener (backoffs q ! b)"
    using assms(5) by (simp_all add: retrying_def)
  have q': "q' = q \<lparr> waiting := waiting q - {#RanAgain i b#},
                     backoffs := (backoffs q)[b := (backoffs q ! b)
                        \<lparr> backoffNumber := 0, failListener := False \<rparr>],
                     notifications := notifications q @ [ErrorEvent (Some MaxRetriesReached)] \<rparr>"
    using assms(2,6,7,8) b by (auto simp: ranAgain_def backoff_backoff_def Let_def emit_def)
  have "scope_count i (waiting q - {#RanAgain i b#}) = 0"
    using one_inv_taken[OF _ assms(2), of i] assms(1) by (simp add: scopes_inv_def)
  then show "dead i q'"
    using assms(3,4) by (simp add: q' dead_def)
  show "notifications q' = notifications q @ [ErrorEvent (Some MaxRetriesReached)]"
    "concurrency q' = concurrency q" "pending q' = pending q"
    by (simp_all add: q')
qed

lemma step_deletion:
  assumes "scopes_inv q" "succeeded i q" "DeletedPending i \<in># waiting q"
    and "step (Complete (DeletedPending i) x) q = Some q'"
  shows "succeeded i q'" "DeletedPending i \<notin># waiting q'"
    "notifications q' = notifications q" "concurrency q' = concurrency q"
    "pending q' = (if x = None then store_del (p_key (scopes q ! i)) (pending q) else pending q)"
proof -
  have i: "i < length (scopes q)" "p_done (scopes q ! i)"
    using assms(2) by (simp_all add: succeeded_def)
  have e: "p_err (scopes q ! i) = None"
    using assms(1) i by (simp add: scopes_inv_def err_inv_def)
  have q': "q' = flush (q \<lparr> waiting := waiting q - {#DeletedPending i#},
                  pending := (if x = None then store_del (p_key (scopes q ! i)) (pending q)
                              else pending q) \<rparr>)"
    using assms(3,4) e by (cases x) (simp_all add: deletedPending_def)
  have others: "\<And>c'. c' \<in># waiting q - {#DeletedPending i#} \<Longrightarrow> scope_of c' \<noteq> Some i"
    using one_inv_others[OF _ assms(3), of i] assms(1) by (simp add: scopes_inv_def)
  have w: "waiting q' = waiting q - {#DeletedPending i#}
         \<or> waiting q' = add_mset Poke (waiting q - {#DeletedPending i#})"
    by (simp add: q' flush_def await_def)
  show "succeeded i q'"
    using i others w by (auto simp: q' succeeded_def)
  show "DeletedPending i \<notin># waiting q'"
    using others[of "DeletedPending i"] w by auto
  show "notifications q' = notifications q" "concurrency q' = concurrency q"
    "pending q' = (if x = None then store_del (p_key (scopes q ! i)) (pending q) else pending q)"
    by (simp_all add: q')
qed

subsection \<open>Runs of a job among other events\<close>

lemma emitted_simps [simp]:
  "emitted [] = []"
  "emitted ((s, e, t) # js) = drop (length (notifications s)) (notifications t) @ emitted js"
  by (simp_all add: emitted_def)

lemma released_simps [simp]:
  "released [] = 0"
  "released ((s, e, t) # js) = concurrency s - concurrency t + released js"
  by (simp_all add: released_def)

lemma replies_simps [simp]:
  "replies i [] = []"
  "replies i (e # es) = reply_of i e @ replies i es"
  by (simp_all add: replies_def)

lemma other_event:
  assumes "event_scope e \<noteq> Some i"
  shows "reply_of i e = []" "\<not> deletion_of i e"
proof -
  show "reply_of i e = []"
  proof (cases e)
    case (Complete c x)
    then show ?thesis using assms by (cases c) auto
  qed (use assms in auto)
  show "\<not> deletion_of i e"
  proof (cases e)
    case (Complete c x)
    then show ?thesis using assms by (cases c) auto
  qed (use assms in auto)
qed

lemma no_event:
  assumes "\<forall>c \<in># waiting q. scope_of c \<noteq> Some i" "step e q = Some q'"
  shows "event_scope e \<noteq> Some i"
  using assms by (cases e) (auto split: if_splits)

lemma finished_run:
  assumes "succeeded i q" "DeletedPending i \<notin># waiting q" "run es q = Some q'"
  shows "job_steps i es q = [] \<and> replies i es = [] \<and> filter (deletion_of i) es = []
       \<and> succeeded i q' \<and> DeletedPending i \<notin># waiting q'"
  using assms
proof (induction es arbitrary: q)
  case Nil
  then show ?case by simp
next
  case (Cons e es)
  then obtain q1 where s: "step e q = Some q1" and r: "run es q1 = Some q'"
    by (auto split: option.splits)
  have "\<forall>c \<in># waiting q. scope_of c \<noteq> Some i"
    using Cons.prems(1,2) by (auto simp: succeeded_def)
  then have o: "event_scope e \<noteq> Some i"
    using s by (rule no_event)
  note n = succeeded_other_step[OF s o Cons.prems(1)]
  have "DeletedPending i \<notin># waiting q1"
    using n(2) Cons.prems(2) by simp
  from Cons.IH[OF n(1) this r] show ?case
    using s o other_event[OF o] by simp
qed

lemma dead_job_run:
  assumes "dead i q" "run es q = Some q'"
  shows "job_steps i es q = [] \<and> replies i es = [] \<and> dead i q'"
  using assms
proof (induction es arbitrary: q)
  case Nil
  then show ?case by simp
next
  case (Cons e es)
  then obtain q1 where s: "step e q = Some q1" and r: "run es q1 = Some q'"
    by (auto split: option.splits)
  have "\<forall>c \<in># waiting q. scope_of c \<noteq> Some i"
    using Cons.prems(1) scope_count_pos[of _ "waiting q" i] by (auto simp: dead_def)
  then have o: "event_scope e \<noteq> Some i"
    using s by (rule no_event)
  from Cons.IH[OF dead_step[OF Cons.prems(1) s] r] show ?case
    using s o other_event[OF o] by simp
qed

lemma deleting_run:
  assumes "scopes_inv q" "succeeded i q" "DeletedPending i \<in># waiting q"
    and "run es q = Some q'" "p_key (scopes q ! i) = k"
  shows "replies i es = [] \<and> emitted (job_steps i es q) = [] \<and> released (job_steps i es q) = 0
       \<and> list_all (pending_deleted i k) (job_steps i es q) \<and> succeeded i q'
       \<and> length (filter (deletion_of i) es) = (if DeletedPending i \<in># waiting q' then 0 else 1)"
  using assms
proof (induction es arbitrary: q)
  case Nil
  then show ?case by simp
next
  case (Cons e es)
  then obtain q1 where s: "step e q = Some q1" and r: "run es q1 = Some q'"
    by (auto split: option.splits)
  have i: "i < length (scopes q)"
    using Cons.prems(2) by (simp add: succeeded_def)
  have inv1: "scopes_inv q1"
    using scopes_inv_step[OF Cons.prems(1) s] .
  show ?case
  proof (cases "event_scope e = Some i")
    case False
    note n = succeeded_other_step[OF s False Cons.prems(2)]
    have d: "DeletedPending i \<in># waiting q1"
      using n(2) Cons.prems(3) by simp
    have k: "p_key (scopes q1 ! i) = k"
      using other_step(2)[OF s False i] Cons.prems(5) by simp
    from Cons.IH[OF inv1 n(1) d r k] show ?thesis
      using s False other_event[OF False] by simp
  next
    case True
    have one: "one_inv q"
      using Cons.prems(1) by (simp add: scopes_inv_def)
    from own_event[OF one Cons.prems(3) _ s True]
    obtain x where e: "e = Complete (DeletedPending i) x"
      by auto
    note d = step_deletion[OF Cons.prems(1,2,3) s[unfolded e]]
    have p: "pending_deleted i k (q, e, q1)"
      using d(5) Cons.prems(5) by (auto simp: pending_deleted_def e)
    from finished_run[OF d(1,2) r] show ?thesis
      using s d(3,4) p by (simp add: e)
  qed
qed

end
